theory Spec2Isabelle
  imports Main "HOL-Library.Word"
begin

unbundle bit_operations_syntax

section \<open>Basic types of ofind\<close>

text \<open>
  \<^verbatim>\<open>typedef int32_t State; typedef uint32_t Row;\<close>
  A row is a 32-bit unsigned word.  Offsets into the state space and the other
  \<^verbatim>\<open>int\<close> indices are modelled as unbounded numbers where the program keeps them
  inside the range of \<^verbatim>\<open>int\<close> (signed overflow is undefined in C).
\<close>

type_synonym Row = "32 word"

datatype sym_type = none | odd | even

section \<open>The down-shift table\<close>

text \<open>
  \<^verbatim>\<open>int downShifts[256];\<close> is a global, so it starts as all zero.
  \<^verbatim>\<open>for (x = 0; x < 0377; x++) { int y = 0; if (x & 021) y |= 03; ... downShifts[x] = y; }\<close>
\<close>

definition downShifts_init :: "nat \<Rightarrow> int" where
  "downShifts_init = (\<lambda>_. 0)"

definition downShift_entry :: "nat \<Rightarrow> int" where
  "downShift_entry x =
     (let y0 = (0::int);
          y1 = (if (int x) AND 17 \<noteq> 0 then y0 OR 3 else y0);
          y2 = (if (int x) AND 34 \<noteq> 0 then y1 OR 12 else y1);
          y3 = (if (int x) AND 68 \<noteq> 0 then y2 OR 48 else y2);
          y4 = (if (int x) AND 136 \<noteq> 0 then y3 OR 192 else y3)
      in y4)"

definition makeDownShifts :: "(nat \<Rightarrow> int) \<Rightarrow> (nat \<Rightarrow> int)" where
  "makeDownShifts downShifts =
     fold (\<lambda>x tab. tab(x := downShift_entry x)) [0..<255] downShifts"

text \<open>
  The projection the table is meant to hold: a three-cell state \<open>(a,b,c)\<close> sits at bit
  \<open>a + 2b + 4c\<close>; dropping the consumed cell \<open>c\<close> and prepending a free cell \<open>x\<close>
  gives the two states \<open>x + 2a + 4b\<close>, \<open>x \<in> {0,1}\<close>, that is bits \<open>2 * (s mod 4)\<close> and
  \<open>2 * (s mod 4) + 1\<close>.
\<close>

definition downShift_projection :: "nat \<Rightarrow> int" where
  "downShift_projection x =
     fold (\<lambda>s y. if bit x s then y OR push_bit (2 * (s mod 4)) 3 else y) [0..<8] 0"

section \<open>Stator mask and the qsort comparator\<close>

text \<open>
  \<^verbatim>\<open>#define STATMASK ((((1<<rightStatorWidth)-1)<<(rotorWidth+leftStatorWidth))|((1<<leftStatorWidth)-1))\<close>
  The mask is only ever used against a \<^verbatim>\<open>Row\<close>, so it is taken as a 32-bit word.
\<close>

record widths =
  rotorWidth :: nat
  leftStatorWidth :: nat
  rightStatorWidth :: nat

definition totalWidth :: "widths \<Rightarrow> nat" where
  "totalWidth w = rotorWidth w + leftStatorWidth w + rightStatorWidth w"

definition STATMASK :: "widths \<Rightarrow> Row" where
  "STATMASK w =
     (push_bit (rotorWidth w + leftStatorWidth w) (push_bit (rightStatorWidth w) 1 - 1))
       OR (push_bit (leftStatorWidth w) 1 - 1)"

text \<open>
  \<^verbatim>\<open>if ((pr&STATMASK) != (qr&STATMASK)) return (int) ((pr&STATMASK) - (qr&STATMASK));
  return (int) (pr-qr);\<close>
  The subtraction is unsigned and wraps; the cast to \<^verbatim>\<open>int\<close> reads the result as two's
  complement.
\<close>

definition statorCompare :: "widths \<Rightarrow> Row \<Rightarrow> Row \<Rightarrow> int" where
  "statorCompare w pr qr =
     (if (pr AND STATMASK w) \<noteq> (qr AND STATMASK w)
      then sint ((pr AND STATMASK w) - (qr AND STATMASK w))
      else sint (pr - qr))"

text \<open>The order of the specification: stator bits first, then the full row.\<close>

definition stator_less :: "widths \<Rightarrow> Row \<Rightarrow> Row \<Rightarrow> bool" where
  "stator_less w p q =
     ((p AND STATMASK w) < (q AND STATMASK w)
      \<or> ((p AND STATMASK w) = (q AND STATMASK w) \<and> p < q))"

section \<open>Properties of the down-shift table\<close>

lemma fold_upd_upt:
  "fold (\<lambda>x tab. tab(x := f x)) [0..<n] t = (\<lambda>x. if x < n then f x else t x)"
  by (induction n) (auto simp: fun_eq_iff)

lemma makeDownShifts_apply:
  "makeDownShifts t x = (if x < 255 then downShift_entry x else t x)"
  by (simp add: makeDownShifts_def fold_upd_upt)

lemma and_two_bits:
  "(a AND ((2::int) ^ m OR 2 ^ n) \<noteq> 0) = (bit a m \<or> bit a n)"
proof -
  have "a AND (2 ^ m OR 2 ^ n) = (a AND 2 ^ m) OR (a AND 2 ^ n)"
    by (simp only: bit.conj_disj_distrib)
  then show ?thesis
    by (simp add: or_eq_0_iff and_exp_eq_0_iff_not_bit)
qed

lemma downShift_entry_bits:
  "downShift_entry x =
     (let y1 = (if bit x 0 \<or> bit x 4 then 3 else 0);
          y2 = (if bit x 1 \<or> bit x 5 then y1 OR 12 else y1);
          y3 = (if bit x 2 \<or> bit x 6 then y2 OR 48 else y2)
      in (if bit x 3 \<or> bit x 7 then y3 OR 192 else y3))"
  using and_two_bits [of "int x" 0 4] and_two_bits [of "int x" 1 5]
    and_two_bits [of "int x" 2 6] and_two_bits [of "int x" 3 7]
  by (simp add: downShift_entry_def Let_def bit_of_nat_iff_bit)

lemma downShift_projection_bits:
  "downShift_projection x =
     fold (\<lambda>s y. if bit x s then y OR push_bit (2 * (s mod 4)) 3 else y) [0,1,2,3,4,5,6,7] 0"
proof -
  have "[0..<8] = [0,1,2,3,4,5,6,7::nat]" by (simp add: upt_conv_Cons)
  then show ?thesis by (simp only: downShift_projection_def)
qed

text \<open>The body of the loop computes the projection for every index.\<close>

lemma downShift_entry_eq_projection: "downShift_entry x = downShift_projection x"
  unfolding downShift_entry_bits downShift_projection_bits
  by (cases "bit x 0"; cases "bit x 1"; cases "bit x 2"; cases "bit x 3";
      cases "bit x 4"; cases "bit x 5"; cases "bit x 6"; cases "bit x 7"; simp)

text \<open>So the table is right on the 255 indices the loop visits.\<close>

lemma makeDownShifts_below_255:
  "x < 255 \<Longrightarrow> makeDownShifts t x = downShift_projection x"
  by (simp add: makeDownShifts_apply downShift_entry_eq_projection)

text \<open>
  Claim C8.  The table is claimed to hold the projection for every bitmap
  \<open>0 \<le> x \<le> 255\<close>, and in particular to map the full bitmap 255 to the full result.
  The loop stops at \<open>x < 0377\<close>, one short: index 255 is never written and keeps the
  zero of the global array, although the projection of 255 is 255.
\<close>

theorem C8_downShifts_255_unset:
  "makeDownShifts downShifts_init 255 = 0 \<and> downShift_projection 255 = 255"
  by (simp add: makeDownShifts_apply downShifts_init_def downShift_projection_def upt_conv_Cons)

section \<open>Properties of the comparator\<close>

lemma sint_diff_small:
  fixes a b :: Row
  assumes "a < 2 ^ 31" "b < 2 ^ 31"
  shows "sint (a - b) = uint a - uint b"
proof -
  have a: "uint a < 2 ^ 31" using assms(1) by (simp add: word_less_def)
  have b: "uint b < 2 ^ 31" using assms(2) by (simp add: word_less_def)
  have lo: "- (2 ^ 31) \<le> uint a - uint b"
    using b uint_ge_0 [of a] by linarith
  have hi: "uint a - uint b < 2 ^ 31"
    using a uint_ge_0 [of b] by linarith
  have "sint (a - b) = signed_take_bit 31 (uint a - uint b)"
    by (simp add: sint_uint uint_word_ariths signed_take_bit_eq_iff_take_bit_eq take_bit_eq_mod)
  also have "\<dots> = uint a - uint b"
    using lo hi by (rule signed_take_bit_int_eq_self)
  finally show ?thesis .
qed

lemma and_small:
  fixes a m :: Row
  assumes "a < 2 ^ 31" shows "a AND m < 2 ^ 31"
  using assms word_and_le2 [of a m] by (rule_tac le_less_trans)

text \<open>On rows that leave bit 31 clear the comparator agrees with the order.\<close>

lemma statorCompare_small:
  assumes "p < 2 ^ 31" "q < 2 ^ 31"
  shows "(statorCompare w p q < 0) = stator_less w p q"
    and "(statorCompare w p q = 0) = (p = q)"
proof -
  let ?m = "STATMASK w"
  have d1: "sint (p - q) = uint p - uint q"
    by (rule sint_diff_small [OF assms])
  have d2: "sint ((p AND ?m) - (q AND ?m)) = uint (p AND ?m) - uint (q AND ?m)"
    by (rule sint_diff_small [OF and_small [OF assms(1)] and_small [OF assms(2)]])
  show "(statorCompare w p q < 0) = stator_less w p q"
    by (auto simp: statorCompare_def stator_less_def d1 d2 word_less_def word_uint_eq_iff)
  show "(statorCompare w p q = 0) = (p = q)"
  proof (cases "p = q")
    case True
    then show ?thesis by (simp add: statorCompare_def)
  next
    case False
    then show ?thesis
      by (auto simp: statorCompare_def d1 d2 word_uint_eq_iff)
  qed
qed

text \<open>
  Claim C9.  \<open>statorCompare\<close> is claimed to be negative exactly when
  \<open>(p & STATMASK, p)\<close> is lexicographically smaller than \<open>(q & STATMASK, q)\<close>, for all
  32-bit rows.  With a total width of 32 (rotor 31, left stator 1) the rows
  \<open>0x80000000\<close> and \<open>0\<close> have the same stator bits and \<open>0 < 0x80000000\<close>, but the
  unsigned difference \<open>0x80000000\<close> is cast to a negative \<^verbatim>\<open>int\<close>: the comparator
  orders the larger row first.
\<close>

theorem C9_statorCompare_wraps:
  "STATMASK \<lparr>rotorWidth = 31, leftStatorWidth = 1, rightStatorWidth = 0\<rparr> = 1
   \<and> statorCompare \<lparr>rotorWidth = 31, leftStatorWidth = 1, rightStatorWidth = 0\<rparr>
         0x80000000 0 = - 2147483648
   \<and> stator_less \<lparr>rotorWidth = 31, leftStatorWidth = 1, rightStatorWidth = 0\<rparr>
         0 0x80000000"
  by (simp add: statorCompare_def STATMASK_def stator_less_def)


section \<open>Representation of states\<close>

text \<open>
  \<^verbatim>\<open>Row * statespace; State firstUnprocessedState; State firstFreeState;\<close>
  A state is an offset into \<open>statespace\<close>: the word at the offset holds the parent, the
  next \<open>period\<close> words hold one row per phase.  The period is passed as \<open>P\<close>.
\<close>

record queue =
  statespace :: "int \<Rightarrow> Row"
  firstUnprocessedState :: int
  firstFreeState :: int

text \<open>The ways the program leaves through \<^verbatim>\<open>failure()\<close> or \<^verbatim>\<open>success()\<close>.\<close>

datatype exit_reason =
  QueueFull | RowsExceeded | CompatExceeded | ReachExceeded | NoParent | PatternFound

definition firstState :: int where
  "firstState = 0"

definition lastState :: int where
  "lastState = 2147483647"

definition queueFull :: int where
  "queueFull = 2147483647 div 2"

definition unused :: int where
  "unused = - 1"

definition parentState :: "queue \<Rightarrow> int \<Rightarrow> int" where
  "parentState q s = sint (statespace q s)"

definition setParentState :: "int \<Rightarrow> int \<Rightarrow> queue \<Rightarrow> queue" where
  "setParentState s parent q = q\<lparr>statespace := (statespace q)(s := word_of_int parent)\<rparr>"

definition rowOfState :: "queue \<Rightarrow> int \<Rightarrow> nat \<Rightarrow> Row" where
  "rowOfState q s phase = statespace q (s + 1 + int phase)"

definition setRowOfState :: "int \<Rightarrow> nat \<Rightarrow> Row \<Rightarrow> queue \<Rightarrow> queue" where
  "setRowOfState s phase row q = q\<lparr>statespace := (statespace q)(s + 1 + int phase := row)\<rparr>"

text \<open>
  \<^verbatim>\<open>State l = s + period + 1; if (l >= lastState) { printf(...); failure(); } return l;\<close>
\<close>

definition nextState :: "nat \<Rightarrow> int \<Rightarrow> exit_reason + int" where
  "nextState P s = (let l = s + int P + 1 in if l \<ge> lastState then Inl QueueFull else Inr l)"

definition previousState :: "nat \<Rightarrow> int \<Rightarrow> int" where
  "previousState P s = s - (int P + 1)"

text \<open>
  \<^verbatim>\<open>statespace = calloc(...); firstUnprocessedState = firstState;
  setParentState(firstUnprocessedState, firstUnprocessedState);
  for (phase = 0; phase < period; phase++) setRowOfState(firstUnprocessedState, phase, 0);
  firstFreeState = nextState(firstUnprocessedState);\<close>
\<close>

definition makeInitialStates :: "nat \<Rightarrow> exit_reason + queue" where
  "makeInitialStates P =
     (let q0 = \<lparr>statespace = (\<lambda>_. 0), firstUnprocessedState = firstState,
                 firstFreeState = 0\<rparr>;
          q1 = setParentState (firstUnprocessedState q0) (firstUnprocessedState q0) q0;
          q2 = fold (\<lambda>phase. setRowOfState (firstUnprocessedState q1) phase 0) [0..<P] q1
      in case nextState P (firstUnprocessedState q2) of
           Inl e \<Rightarrow> Inl e
         | Inr l \<Rightarrow> Inr (q2\<lparr>firstFreeState := l\<rparr>))"

section \<open>Hash table for duplicate state elimination\<close>

text \<open>
  \<^verbatim>\<open>State hashTable[HASHSIZE]; long hashValTab[MAXPERIOD*1024]; long hashValPTab[MAXPERIOD*1024];\<close>
  The two salt tables are filled once from \<^verbatim>\<open>random()\<close>; they are parameters here.
  \<^verbatim>\<open>hashKey\<close> is a \<^verbatim>\<open>long\<close>; it is modelled as an unbounded integer (a sum of at most
  \<open>8 * 19\<close> values of \<^verbatim>\<open>rand()\<close> does not overflow a 64-bit \<^verbatim>\<open>long\<close>).
\<close>

record salts =
  hashValTab :: "int \<Rightarrow> int"
  hashValPTab :: "int \<Rightarrow> int"

definition HASHMASK :: int where
  "HASHMASK = 2 ^ 21 - 1"

text \<open>\<^verbatim>\<open>#define HASHIDX(p,b,s) ((p)<<10)+(b<<8)+((rowOfState(s, p)>>(b*8))&0xff)\<close>\<close>

definition HASHIDX :: "queue \<Rightarrow> nat \<Rightarrow> nat \<Rightarrow> int \<Rightarrow> int" where
  "HASHIDX q p b s =
     push_bit 10 (int p) + push_bit 8 (int b) + uint (drop_bit (b * 8) (rowOfState q s p) AND 0xff)"

text \<open>
  \<^verbatim>\<open>#define HASHBYTE(phase,byte,s) (hashValTab[HASHIDX(phase,byte,s)]+hashValPTab[HASHIDX(phase,byte,parentState(s))])\<close>
\<close>

definition HASHBYTE :: "salts \<Rightarrow> queue \<Rightarrow> nat \<Rightarrow> nat \<Rightarrow> int \<Rightarrow> int" where
  "HASHBYTE sl q phase byte s =
     hashValTab sl (HASHIDX q phase byte s) + hashValPTab sl (HASHIDX q phase byte (parentState q s))"

text \<open>
  \<^verbatim>\<open>for (phase = 0; phase < period; phase++)
    if (rowOfState(s, phase) != rowOfState(t, phase) ||
        rowOfState(ps, phase) != rowOfState(pt, phase)) return 0;
  return 1;\<close>
\<close>

fun isDuplicate_loop :: "queue \<Rightarrow> int \<Rightarrow> int \<Rightarrow> int \<Rightarrow> int \<Rightarrow> nat list \<Rightarrow> int" where
  "isDuplicate_loop q s t ps pt [] = 1"
| "isDuplicate_loop q s t ps pt (phase # phases) =
     (if rowOfState q s phase \<noteq> rowOfState q t phase
         \<or> rowOfState q ps phase \<noteq> rowOfState q pt phase
      then 0
      else isDuplicate_loop q s t ps pt phases)"

definition isDuplicate :: "nat \<Rightarrow> queue \<Rightarrow> int \<Rightarrow> int \<Rightarrow> int" where
  "isDuplicate P q s t =
     (let ps = parentState q s; pt = parentState q t
      in isDuplicate_loop q s t ps pt [0..<P])"

text \<open>
  \<^verbatim>\<open>for (phase = 0; phase < period; phase++)
    hashKey += HASHBYTE(phase,0,s) + HASHBYTE(phase,1,s) + HASHBYTE(phase,2,s) + HASHBYTE(phase,3,s);\<close>
\<close>

definition hashKey_of :: "nat \<Rightarrow> salts \<Rightarrow> queue \<Rightarrow> int \<Rightarrow> int" where
  "hashKey_of P sl q s =
     fold (\<lambda>phase hashKey. hashKey + (HASHBYTE sl q phase 0 s + HASHBYTE sl q phase 1 s
                                        + HASHBYTE sl q phase 2 s + HASHBYTE sl q phase 3 s))
       [0..<P] 0"

text \<open>
  \<^verbatim>\<open>while (nTries-- > 0) {
    if (hashTable[hashKey & HASHMASK] == 0) { hashTable[hashKey & HASHMASK] = s; return 0; }
    else if (isDuplicate(s, hashTable[hashKey & HASHMASK])) return 1;
    hashKey += (hashKey >> 16);
  }
  return 0;\<close>
  The result is the returned flag and the hash table afterwards.
\<close>

fun hash_probe ::
  "nat \<Rightarrow> queue \<Rightarrow> int \<Rightarrow> nat \<Rightarrow> int \<Rightarrow> (int \<Rightarrow> int) \<Rightarrow> int \<times> (int \<Rightarrow> int)" where
  "hash_probe P q s 0 hashKey hashTable = (0, hashTable)"
| "hash_probe P q s (Suc nTries) hashKey hashTable =
     (if hashTable (hashKey AND HASHMASK) = 0
      then (0, hashTable(hashKey AND HASHMASK := s))
      else if isDuplicate P q s (hashTable (hashKey AND HASHMASK)) \<noteq> 0 then (1, hashTable)
      else hash_probe P q s nTries (hashKey + drop_bit 16 hashKey) hashTable)"

definition hash :: "nat \<Rightarrow> salts \<Rightarrow> queue \<Rightarrow> (int \<Rightarrow> int) \<Rightarrow> int \<Rightarrow> int \<times> (int \<Rightarrow> int)" where
  "hash P sl q hashTable s = hash_probe P q s 3 (hashKey_of P sl q s) hashTable"

text \<open>The successive keys of the probe sequence, \<^verbatim>\<open>key += key >> 16\<close>.\<close>

primrec probe_key :: "int \<Rightarrow> nat \<Rightarrow> int" where
  "probe_key k 0 = k"
| "probe_key k (Suc n) = probe_key k n + drop_bit 16 (probe_key k n)"

text \<open>The equality that makes a stored state a duplicate of \<open>s\<close>.\<close>

definition same_rows :: "nat \<Rightarrow> queue \<Rightarrow> int \<Rightarrow> int \<Rightarrow> bool" where
  "same_rows P q s t =
     (\<forall>phase < P. rowOfState q t phase = rowOfState q s phase
         \<and> rowOfState q (parentState q t) phase = rowOfState q (parentState q s) phase)"


section \<open>Properties of the hash table\<close>

lemma isDuplicate_loop_iff:
  "(isDuplicate_loop q s t ps pt phases \<noteq> 0) =
   (\<forall>phase \<in> set phases. rowOfState q s phase = rowOfState q t phase
       \<and> rowOfState q ps phase = rowOfState q pt phase)"
  by (induction phases) auto

lemma isDuplicate_iff: "(isDuplicate P q s t \<noteq> 0) = same_rows P q s t"
  by (auto simp: isDuplicate_def same_rows_def isDuplicate_loop_iff Let_def)

text \<open>The slot probed at the \<open>n\<close>-th try, and a slot that sends the probe on: occupied by a
  state that is no duplicate of \<open>s\<close>.\<close>

definition slot_of :: "nat \<Rightarrow> salts \<Rightarrow> queue \<Rightarrow> int \<Rightarrow> nat \<Rightarrow> int" where
  "slot_of P sl q s n = probe_key (hashKey_of P sl q s) n AND HASHMASK"

definition busy :: "nat \<Rightarrow> salts \<Rightarrow> queue \<Rightarrow> (int \<Rightarrow> int) \<Rightarrow> int \<Rightarrow> nat \<Rightarrow> bool" where
  "busy P sl q tbl s n =
     (tbl (slot_of P sl q s n) \<noteq> 0 \<and> \<not> same_rows P q s (tbl (slot_of P sl q s n)))"

lemma hash_unfold:
  "hash P sl q tbl s =
    (let k0 = hashKey_of P sl q s; k1 = k0 + drop_bit 16 k0; k2 = k1 + drop_bit 16 k1 in
     if tbl (k0 AND HASHMASK) = 0 then (0, tbl(k0 AND HASHMASK := s))
     else if same_rows P q s (tbl (k0 AND HASHMASK)) then (1, tbl)
     else if tbl (k1 AND HASHMASK) = 0 then (0, tbl(k1 AND HASHMASK := s))
     else if same_rows P q s (tbl (k1 AND HASHMASK)) then (1, tbl)
     else if tbl (k2 AND HASHMASK) = 0 then (0, tbl(k2 AND HASHMASK := s))
     else if same_rows P q s (tbl (k2 AND HASHMASK)) then (1, tbl)
     else (0, tbl))"
  by (simp add: hash_def numeral_3_eq_3 isDuplicate_iff Let_def)



text \<open>
  Claim C6.  \<open>hash(s)\<close> returns nonzero exactly when one of the at most three probed
  slots holds a duplicate of \<open>s\<close> (a slot is probed when every earlier slot of the
  sequence was occupied by a non-duplicate); when a probed slot is empty, \<open>s\<close> is stored
  there and 0 is returned; when all three probed slots are occupied by non-duplicates,
  0 is returned and the table is unchanged.  A duplicate leaves the table unchanged too.
\<close>

theorem C6_hash:
  "((fst (hash P sl q tbl s) \<noteq> 0) =
      (\<exists>n<3. (\<forall>m<n. busy P sl q tbl s m) \<and> tbl (slot_of P sl q s n) \<noteq> 0
          \<and> same_rows P q s (tbl (slot_of P sl q s n))))
   \<and> (\<forall>n<3. (\<forall>m<n. busy P sl q tbl s m) \<and> tbl (slot_of P sl q s n) = 0 \<longrightarrow>
          hash P sl q tbl s = (0, tbl(slot_of P sl q s n := s)))
   \<and> ((\<forall>n<3. busy P sl q tbl s n) \<longrightarrow> hash P sl q tbl s = (0, tbl))
   \<and> (fst (hash P sl q tbl s) \<noteq> 0 \<longrightarrow> snd (hash P sl q tbl s) = tbl)"
proof -
  have 1: "(fst (hash P sl q tbl s) \<noteq> 0) =
      (\<exists>n<3. (\<forall>m<n. busy P sl q tbl s m) \<and> tbl (slot_of P sl q s n) \<noteq> 0
          \<and> same_rows P q s (tbl (slot_of P sl q s n)))"
    by (simp add: numeral_3_eq_3 All_less_Suc Ex_less_Suc hash_unfold Let_def busy_def slot_of_def)
  have 2: "\<forall>n<3. (\<forall>m<n. busy P sl q tbl s m) \<and> tbl (slot_of P sl q s n) = 0 \<longrightarrow>
          hash P sl q tbl s = (0, tbl(slot_of P sl q s n := s))"
    by (simp add: numeral_3_eq_3 All_less_Suc Ex_less_Suc hash_unfold Let_def busy_def slot_of_def)
  have 3: "(\<forall>n<3. busy P sl q tbl s n) \<longrightarrow> hash P sl q tbl s = (0, tbl)"
    by (simp add: numeral_3_eq_3 All_less_Suc Ex_less_Suc hash_unfold Let_def busy_def slot_of_def)
  have 4: "fst (hash P sl q tbl s) \<noteq> 0 \<longrightarrow> snd (hash P sl q tbl s) = tbl"
    by (simp add: hash_unfold Let_def)
  from 1 2 3 4 show ?thesis by blast
qed

text \<open>
  With all salts zero every key is 0.  An empty table takes state 2 into slot 0; a
  table whose slot 0 holds state 4, with the same (zero) rows and parent rows, reports
  a duplicate.
\<close>

theorem C6_hash_witness:
  "hash 1 \<lparr>hashValTab = (\<lambda>_. 0), hashValPTab = (\<lambda>_. 0)\<rparr>
       \<lparr>statespace = (\<lambda>_. 0), firstUnprocessedState = 0, firstFreeState = 6\<rparr> (\<lambda>_. 0) 2
     = (0, (\<lambda>_. 0)(0 := 2))
   \<and> fst (hash 1 \<lparr>hashValTab = (\<lambda>_. 0), hashValPTab = (\<lambda>_. 0)\<rparr>
       \<lparr>statespace = (\<lambda>_. 0), firstUnprocessedState = 0, firstFreeState = 6\<rparr>
       ((\<lambda>_. 0)(0 := 4)) 2) \<noteq> 0"
proof -
  let ?sl = "\<lparr>hashValTab = (\<lambda>_. 0), hashValPTab = (\<lambda>_. 0)\<rparr>"
  let ?q = "\<lparr>statespace = (\<lambda>_. 0), firstUnprocessedState = 0, firstFreeState = 6\<rparr>"
  have slot0: "slot_of 1 ?sl ?q 2 0 = 0"
    by (simp add: slot_of_def hashKey_of_def HASHBYTE_def HASHMASK_def)
  have same: "same_rows 1 ?q 2 4"
    by (simp add: same_rows_def rowOfState_def parentState_def)
  have "hash 1 ?sl ?q (\<lambda>_. 0) 2 = (0, (\<lambda>_. 0)(slot_of 1 ?sl ?q 2 0 := 2))"
    using C6_hash [of 1 ?sl ?q "\<lambda>_. 0" 2, THEN conjunct2, THEN conjunct1, rule_format, of 0]
    by simp
  moreover have "fst (hash 1 ?sl ?q ((\<lambda>_. 0)(0 := 4)) 2) \<noteq> 0"
  proof -
    have "\<exists>n<3. (\<forall>m<n. busy 1 ?sl ?q ((\<lambda>_. 0)(0 := 4)) 2 m)
        \<and> ((\<lambda>_. 0)(0 := 4)) (slot_of 1 ?sl ?q 2 n) \<noteq> (0::int)
        \<and> same_rows 1 ?q 2 (((\<lambda>_. 0)(0 := 4)) (slot_of 1 ?sl ?q 2 n))"
      using slot0 same by (intro exI [of _ 0]) simp
    then show ?thesis
      using C6_hash [of 1 ?sl ?q "(\<lambda>_. 0)(0 := 4)" 2, THEN conjunct1] by blast
  qed
  ultimately show ?thesis unfolding slot0 by blast
qed

section \<open>Appending a state to the queue\<close>

text \<open>
  \<^verbatim>\<open>Row rows[NROWS]; int firstRow[MAXPERIOD]; int nRows[MAXPERIOD]; int rowIndices[MAXPERIOD];\<close>
  The candidate rows of the current expansion and the tuple currently selected.
\<close>

record rowbuf =
  rows :: "int \<Rightarrow> Row"
  firstRow :: "nat \<Rightarrow> int"
  nRows :: "nat \<Rightarrow> int"
  rowIndices :: "nat \<Rightarrow> int"

text \<open>
  \<^verbatim>\<open>for (phase = 0; phase < period && !nonzero; phase++) if(rowOfState(s, phase)) nonzero++;\<close>
\<close>

fun nonzero_loop :: "queue \<Rightarrow> int \<Rightarrow> nat list \<Rightarrow> int \<Rightarrow> int" where
  "nonzero_loop q s [] nonzero = nonzero"
| "nonzero_loop q s (phase # phases) nonzero =
     (if nonzero \<noteq> 0 then nonzero
      else nonzero_loop q s phases (if rowOfState q s phase \<noteq> 0 then nonzero + 1 else nonzero))"

text \<open>
  \<^verbatim>\<open>State s = firstFreeState;
  setParentState(s, parent);
  firstFreeState = nextState(s);
  for (phase = 0; phase < period; phase++)
    setRowOfState(s, phase, rows[firstRow[phase]+rowIndices[phase]]);
  if (parentState(parent) == parent) { ...; if (!nonzero) { firstFreeState = s; return; } }
  if (hashing && hash(s)) firstFreeState = s;\<close>
  The state is the queue together with the hash table.
\<close>

definition makeNewState ::
  "nat \<Rightarrow> bool \<Rightarrow> salts \<Rightarrow> rowbuf \<Rightarrow> int \<Rightarrow> queue \<times> (int \<Rightarrow> int)
     \<Rightarrow> exit_reason + queue \<times> (int \<Rightarrow> int)" where
  "makeNewState P hashing sl rb parent qh =
     (let q = fst qh; hashTable = snd qh;
          s = firstFreeState q;
          q1 = setParentState s parent q
      in case nextState P s of
           Inl e \<Rightarrow> Inl e
         | Inr l \<Rightarrow>
            (let q2 = q1\<lparr>firstFreeState := l\<rparr>;
                 q3 = fold (\<lambda>phase. setRowOfState s phase
                                (rows rb (firstRow rb phase + rowIndices rb phase))) [0..<P] q2
             in if parentState q3 parent = parent \<and> nonzero_loop q3 s [0..<P] 0 = 0
                then Inr (q3\<lparr>firstFreeState := s\<rparr>, hashTable)
                else if hashing
                then (case hash P sl q3 hashTable s of
                        (dup, hashTable') \<Rightarrow>
                          if dup \<noteq> 0 then Inr (q3\<lparr>firstFreeState := s\<rparr>, hashTable')
                          else Inr (q3, hashTable'))
                else Inr (q3, hashTable)))"

lemma nonzero_loop_iff:
  "(nonzero_loop q s phases nz = 0) = (nz = 0 \<and> (\<forall>phase \<in> set phases. rowOfState q s phase = 0))"
  by (induction phases arbitrary: nz) auto

lemma fold_setRowOfState_statespace:
  "statespace (fold (\<lambda>phase. setRowOfState s phase (f phase)) [0..<n] q) i =
     (if s + 1 \<le> i \<and> i < s + 1 + int n then f (nat (i - (s + 1))) else statespace q i)"
proof (induction n)
  case 0
  then show ?case by auto
next
  case (Suc n)
  have "nat (i - (s + 1)) = n" if "i = s + 1 + int n" using that by simp
  with Suc show ?case by (auto simp: setRowOfState_def)
qed

lemma fold_setRowOfState_free:
  "firstFreeState (fold (\<lambda>phase. setRowOfState s phase (f phase)) phases q) = firstFreeState q"
  by (induction phases arbitrary: q) (auto simp: setRowOfState_def)

lemma sint_word_of_int_32:
  "0 \<le> k \<Longrightarrow> k < 2147483648 \<Longrightarrow> sint (word_of_int k :: Row) = k"
  by (simp add: signed_of_int signed_take_bit_int_eq_self)

lemma hash_probe_cong:
  assumes "statespace q = statespace q'"
  shows "hash_probe P q s n k tbl = hash_probe P q' s n k tbl"
proof -
  have r: "rowOfState q = rowOfState q'" and p: "parentState q = parentState q'"
    using assms by (simp_all add: fun_eq_iff rowOfState_def parentState_def)
  have l: "isDuplicate_loop q a b c d phases = isDuplicate_loop q' a b c d phases"
    for a b c d phases
    by (induction phases) (simp_all add: r)
  have d: "isDuplicate P q = isDuplicate P q'"
    by (simp add: fun_eq_iff isDuplicate_def p l)
  show ?thesis
    by (induction n arbitrary: k) (simp_all add: d)
qed

lemma hash_cong:
  assumes "statespace q = statespace q'"
  shows "hash P sl q tbl s = hash P sl q' tbl s"
proof -
  have r: "rowOfState q = rowOfState q'" and p: "parentState q = parentState q'"
    using assms by (simp_all add: fun_eq_iff rowOfState_def parentState_def)
  have "hashKey_of P sl q s = hashKey_of P sl q' s"
    by (simp add: hashKey_of_def HASHBYTE_def HASHIDX_def r p)
  then show ?thesis
    by (simp add: hash_def hash_probe_cong [OF assms])
qed

text \<open>
  Claim C5.  A call of \<open>makeNewState(parent)\<close> that returns (it aborts through
  \<open>nextState\<close> when the queue is full) either advances \<open>firstFreeState\<close> by one slot of
  \<open>period + 1\<close> words, the slot holding \<open>parent\<close> and the selected candidate rows, or
  leaves \<open>firstFreeState\<close> at its value at entry; the second case occurs exactly when
  \<open>parent\<close> is its own parent and every selected row is zero, or hashing is on and
  \<open>hash(s)\<close> reports a duplicate.  The parent is a slot of the queue below the free
  pointer, as it is at every call of the search.
\<close>

theorem C5_makeNewState:
  assumes ret: "makeNewState P hashing sl rb parent (q, tbl) = Inr (q', tbl')"
    and parent: "0 \<le> parent" "parent + int P + 1 \<le> firstFreeState q"
  shows "((firstFreeState q' = firstFreeState q + int P + 1
             \<and> parentState q' (firstFreeState q) = parent
             \<and> (\<forall>phase<P. rowOfState q' (firstFreeState q) phase
                    = rows rb (firstRow rb phase + rowIndices rb phase)))
          \<or> firstFreeState q' = firstFreeState q)
       \<and> ((firstFreeState q' = firstFreeState q) =
            ((parentState q parent = parent
                \<and> (\<forall>phase<P. rows rb (firstRow rb phase + rowIndices rb phase) = 0))
             \<or> (hashing \<and> fst (hash P sl q' tbl (firstFreeState q)) \<noteq> 0)))"
proof -
  define s where "s = firstFreeState q"
  define sel where "sel = (\<lambda>phase. rows rb (firstRow rb phase + rowIndices rb phase))"
  define q3 where "q3 = fold (\<lambda>phase. setRowOfState s phase (sel phase)) [0..<P]
       ((setParentState s parent q)\<lparr>firstFreeState := s + int P + 1\<rparr>)"
  from ret have small: "s + int P + 1 < lastState"
    by (auto simp: makeNewState_def Let_def nextState_def s_def split: sum.splits if_splits)
  have ns: "nextState P s = Inr (s + int P + 1)"
    using small by (simp add: nextState_def Let_def)
  have st: "statespace q3 i =
      (if s + 1 \<le> i \<and> i < s + 1 + int P then sel (nat (i - (s + 1)))
       else if i = s then word_of_int parent else statespace q i)" for i
    by (simp add: q3_def fold_setRowOfState_statespace setParentState_def)
  have ff3: "firstFreeState q3 = s + int P + 1"
    by (simp add: q3_def fold_setRowOfState_free setParentState_def)
  have rows3: "rowOfState q3 s phase = sel phase" if "phase < P" for phase
    using that by (simp add: rowOfState_def st)
  have par3: "parentState q3 s = parent"
    using parent small by (simp add: parentState_def st sint_word_of_int_32 lastState_def s_def)
  have parpar: "parentState q3 parent = parentState q parent"
    using parent by (simp add: parentState_def st s_def)
  have nz: "(nonzero_loop q3 s [0..<P] 0 = 0) = (\<forall>phase<P. sel phase = 0)"
    by (auto simp: nonzero_loop_iff rows3)
  have hq: "hash P sl (q3\<lparr>firstFreeState := x\<rparr>) tbl s = hash P sl q3 tbl s" for x
    by (rule hash_cong) simp
  have mk: "makeNewState P hashing sl rb parent (q, tbl) =
     (if parentState q3 parent = parent \<and> nonzero_loop q3 s [0..<P] 0 = 0
      then Inr (q3\<lparr>firstFreeState := s\<rparr>, tbl)
      else if hashing
      then (case hash P sl q3 tbl s of
              (dup, tbl2) \<Rightarrow>
                if dup \<noteq> 0 then Inr (q3\<lparr>firstFreeState := s\<rparr>, tbl2) else Inr (q3, tbl2))
      else Inr (q3, tbl))"
    using ns by (simp add: makeNewState_def Let_def s_def q3_def sel_def split: prod.split)
  from ret have q': "q' = q3 \<or> q' = q3\<lparr>firstFreeState := s\<rparr>"
    unfolding mk by (auto split: if_splits prod.splits)
  have st': "statespace q' = statespace q3" using q' by auto
  have hq': "hash P sl q' tbl s = hash P sl q3 tbl s"
    using q' hq by auto
  have rows': "rowOfState q' s phase = sel phase" if "phase < P" for phase
    using rows3 [OF that] by (simp add: rowOfState_def st')
  have par': "parentState q' s = parent"
    using par3 by (simp add: parentState_def st')
  have A: "(firstFreeState q' = s + int P + 1
             \<and> parentState q' s = parent
             \<and> (\<forall>phase<P. rowOfState q' s phase = sel phase))
          \<or> firstFreeState q' = s"
    using q' ff3 rows' par' by auto
  have B: "(firstFreeState q' = s) =
            ((parentState q parent = parent \<and> (\<forall>phase<P. sel phase = 0))
             \<or> (hashing \<and> fst (hash P sl q' tbl s) \<noteq> 0))"
    using ret ff3 unfolding hq' mk
    by (auto simp: parpar nz split: if_splits prod.splits)
  from A B show ?thesis unfolding s_def sel_def by blast
qed

text \<open>
  The root with period 1 and one candidate row 5: the child lands in slot 2 and the
  free pointer moves from 2 to 4.
\<close>

theorem C5_makeNewState_witness:
  "makeNewState 1 True \<lparr>hashValTab = (\<lambda>_. 0), hashValPTab = (\<lambda>_. 0)\<rparr>
      \<lparr>rows = (\<lambda>_. 5), firstRow = (\<lambda>_. 0), nRows = (\<lambda>_. 1), rowIndices = (\<lambda>_. 0)\<rparr> 0
      (\<lparr>statespace = (\<lambda>_. 0), firstUnprocessedState = 2, firstFreeState = 2\<rparr>, (\<lambda>_. 0))
    = Inr (\<lparr>statespace = (\<lambda>_. 0)(3 := 5), firstUnprocessedState = 2, firstFreeState = 4\<rparr>,
           (\<lambda>_. 0)(0 := 2))
   \<and> parentState \<lparr>statespace = (\<lambda>_. 0)(3 := 5), firstUnprocessedState = 2,
          firstFreeState = 4\<rparr> 2 = 0
   \<and> rowOfState \<lparr>statespace = (\<lambda>_. 0)(3 := 5), firstUnprocessedState = 2,
          firstFreeState = 4\<rparr> 2 0 = 5"
proof -
  have run: "makeNewState 1 True \<lparr>hashValTab = (\<lambda>_. 0), hashValPTab = (\<lambda>_. 0)\<rparr>
      \<lparr>rows = (\<lambda>_. 5), firstRow = (\<lambda>_. 0), nRows = (\<lambda>_. 1), rowIndices = (\<lambda>_. 0)\<rparr> 0
      (\<lparr>statespace = (\<lambda>_. 0), firstUnprocessedState = 2, firstFreeState = 2\<rparr>, (\<lambda>_. 0))
    = Inr (\<lparr>statespace = (\<lambda>_. 0)(3 := 5), firstUnprocessedState = 2, firstFreeState = 4\<rparr>,
           (\<lambda>_. 0)(0 := 2))"
    by (simp add: makeNewState_def nextState_def lastState_def setParentState_def
        setRowOfState_def parentState_def rowOfState_def hash_unfold hashKey_of_def
        HASHBYTE_def HASHIDX_def HASHMASK_def Let_def fun_upd_idem)
  from C5_makeNewState [OF run] run show ?thesis
    by (simp add: parentState_def rowOfState_def)
qed

section \<open>Depth first search\<close>

text \<open>
  \<^verbatim>\<open>State f = firstFreeState;
  if (numLevels == 0) return 1;
  process(s);
  while (f < firstFreeState) {
    State child = previousState(firstFreeState);
    if (depthFirst(child, numLevels - 1)) { firstFreeState = f; return 1; }
    firstFreeState = child;
  }
  firstFreeState = f;
  return 0;\<close>
  The loop is a function of its own; it ends because every round moves
  \<open>firstFreeState\<close> down by one slot.  \<open>process\<close> is a parameter: it maps the program
  state (any record that extends the queue) to the state after the expansion, or to the
  reason why the program ended inside it.  \<open>numLevels\<close> is a natural number.
\<close>

function depthFirst_loop ::
  "(int \<Rightarrow> 'a queue_scheme \<Rightarrow> exit_reason + int \<times> 'a queue_scheme) \<Rightarrow> nat \<Rightarrow> int
     \<Rightarrow> 'a queue_scheme \<Rightarrow> exit_reason + int \<times> 'a queue_scheme" where
  "depthFirst_loop df P f g =
     (if f < firstFreeState g
      then (let child = previousState P (firstFreeState g)
            in case df child g of
                 Inl e \<Rightarrow> Inl e
               | Inr (found, g') \<Rightarrow>
                   if found \<noteq> 0 then Inr (1, g'\<lparr>firstFreeState := f\<rparr>)
                   else depthFirst_loop df P f (g'\<lparr>firstFreeState := child\<rparr>))
      else Inr (0, g\<lparr>firstFreeState := f\<rparr>))"
  by pat_completeness auto
termination
  by (relation "measure (\<lambda>(df, P, f, g). nat (firstFreeState g - f))")
     (auto simp: previousState_def)

declare depthFirst_loop.simps [simp del]

fun depthFirst ::
  "(int \<Rightarrow> 'a queue_scheme \<Rightarrow> exit_reason + 'a queue_scheme) \<Rightarrow> nat \<Rightarrow> int \<Rightarrow> nat
     \<Rightarrow> 'a queue_scheme \<Rightarrow> exit_reason + int \<times> 'a queue_scheme" where
  "depthFirst process P s 0 g = Inr (1, g)"
| "depthFirst process P s (Suc numLevels) g =
     (let f = firstFreeState g
      in case process s g of
           Inl e \<Rightarrow> Inl e
         | Inr g1 \<Rightarrow>
             depthFirst_loop (\<lambda>child g'. depthFirst process P child numLevels g') P f g1)"

lemma depthFirst_loop_restores:
  "depthFirst_loop df P f g = Inr (found, g') \<Longrightarrow> firstFreeState g' = f"
proof (induction df P f g rule: depthFirst_loop.induct)
  case (1 df P f g)
  note unf = depthFirst_loop.simps [of df P f g]
  show ?case
  proof (cases "f < firstFreeState g")
    case False
    with "1.prems" unf have "Inr (0, g\<lparr>firstFreeState := f\<rparr>) = Inr (found, g')"
      by simp
    then show ?thesis by auto
  next
    case True
    define child where "child = previousState P (firstFreeState g)"
    show ?thesis
    proof (cases "df child g")
      case (Inl e)
      with True "1.prems" unf show ?thesis by (simp add: child_def)
    next
      case (Inr r)
      obtain fnd g1 where r: "r = (fnd, g1)" by (cases r)
      show ?thesis
      proof (cases "fnd = 0")
        case False
        with True "1.prems" unf Inr r
        have "Inr (1, g1\<lparr>firstFreeState := f\<rparr>) = Inr (found, g')"
          by (simp add: child_def)
        then show ?thesis by auto
      next
        case z: True
        with True "1.prems" unf Inr r
        have "depthFirst_loop df P f (g1\<lparr>firstFreeState := child\<rparr>) = Inr (found, g')"
          by (simp add: child_def)
        with "1.IH" [OF True child_def Inr [unfolded r] refl ]
        show ?thesis using z by simp
      qed
    qed
  qed
qed

text \<open>
  Claim C10.  When \<open>depthFirst(s, numLevels)\<close> returns, with either truth value,
  \<open>firstFreeState\<close> has its value at entry, whatever \<open>process\<close> appended to the queue.
\<close>

theorem C10_depthFirst_restores:
  "depthFirst process P s numLevels g = Inr (found, g') \<Longrightarrow>
     firstFreeState g' = firstFreeState g"
proof (cases numLevels)
  case 0
  then show "depthFirst process P s numLevels g = Inr (found, g') \<Longrightarrow>
     firstFreeState g' = firstFreeState g" by simp
next
  case (Suc n)
  then show "depthFirst process P s numLevels g = Inr (found, g') \<Longrightarrow>
     firstFreeState g' = firstFreeState g"
    by (auto simp: Let_def split: sum.splits dest: depthFirst_loop_restores)
qed


text \<open>
  A \<open>process\<close> that appends one state per call, period 1, two levels: the probe finds a
  state two levels down, answers 1, and the free pointer is back at 2.
\<close>

theorem C10_depthFirst_restores_witness:
  "depthFirst (\<lambda>s g. Inr (g\<lparr>firstFreeState := firstFreeState g + 2\<rparr>)) 1 0 2
      \<lparr>statespace = (\<lambda>_. 0), firstUnprocessedState = 0, firstFreeState = 2\<rparr>
    = Inr (1, \<lparr>statespace = (\<lambda>_. 0), firstUnprocessedState = 0, firstFreeState = 2\<rparr>)
   \<and> firstFreeState \<lparr>statespace = (\<lambda>_. 0), firstUnprocessedState = 0, firstFreeState = 2\<rparr>
      = (2::int)"
proof -
  have run: "depthFirst (\<lambda>s g. Inr (g\<lparr>firstFreeState := firstFreeState g + 2\<rparr>)) 1 0 2
      \<lparr>statespace = (\<lambda>_. 0), firstUnprocessedState = 0, firstFreeState = 2\<rparr>
    = Inr (1, \<lparr>statespace = (\<lambda>_. 0), firstUnprocessedState = 0, firstFreeState = 2\<rparr>)"
    by (simp add: numeral_2_eq_2 depthFirst_loop.simps previousState_def)
  from C10_depthFirst_restores [OF run] run show ?thesis by simp
qed


section \<open>Subperiod test\<close>

text \<open>
  The inner loop of the failure-function computation.  Its end depends on the
  contents of \<open>p\<close>, so it is a partial function: \<open>None\<close> stands for a loop that never
  ends.
  \<^verbatim>\<open>while (rowOfState(s, p[i]) != rowOfState(s, i))
    if (p[i] == 0) { p[i] = -1; break; }
    else p[i] = p[p[i]-1]+1;\<close>
\<close>

partial_function (option) kmp_while :: "(nat \<Rightarrow> Row) \<Rightarrow> nat \<Rightarrow> (nat \<Rightarrow> int) \<Rightarrow> (nat \<Rightarrow> int) option" where
  "kmp_while row i p =
     (if row (nat (p i)) \<noteq> row i
      then (if p i = 0 then Some (p(i := - 1))
            else kmp_while row i (p(i := p (nat (p i - 1)) + 1)))
      else Some p)"

text \<open>
  \<^verbatim>\<open>for (i = 1; i < period; i++) { p[i] = p[i-1]+1; while ... }\<close>
\<close>

fun kmp_for :: "(nat \<Rightarrow> Row) \<Rightarrow> nat list \<Rightarrow> (nat \<Rightarrow> int) \<Rightarrow> (nat \<Rightarrow> int) option" where
  "kmp_for row [] p = Some p"
| "kmp_for row (i # is) p =
     (case kmp_while row i (p(i := p (i - 1) + 1)) of
        None \<Rightarrow> None
      | Some p' \<Rightarrow> kmp_for row is p')"

text \<open>
  \<^verbatim>\<open>if (period == 1) return (rowOfState(s, 0) != 0);
  p[0] = -1;
  for ...
  i = period - (p[period-1] + 1);
  return (i == period || ((period % i) != 0));\<close>
  The local array \<open>p\<close> is not initialised: its contents at entry are the parameter
  \<open>p0\<close>.
\<close>

definition aperiodic :: "nat \<Rightarrow> (nat \<Rightarrow> int) \<Rightarrow> queue \<Rightarrow> int \<Rightarrow> int option" where
  "aperiodic P p0 q s =
     (if P = 1 then Some (if rowOfState q s 0 \<noteq> 0 then 1 else 0)
      else case kmp_for (rowOfState q s) [1..<P] (p0(0 := - 1)) of
             None \<Rightarrow> None
           | Some p \<Rightarrow>
               (let i = int P - (p (P - 1) + 1)
                in Some (if i = int P \<or> int P mod i \<noteq> 0 then 1 else 0)))"

text \<open>
  The fundamental period of the row sequence: the least \<open>q \<ge> 1\<close> with
  \<open>rows[i] = rows[i+q]\<close> for all \<open>0 \<le> i < P - q\<close>.
\<close>

definition is_period :: "nat \<Rightarrow> (nat \<Rightarrow> Row) \<Rightarrow> nat \<Rightarrow> bool" where
  "is_period P row q = (\<forall>i \<in> set [0..<P - q]. row i = row (i + q))"

definition fundamental_period :: "nat \<Rightarrow> (nat \<Rightarrow> Row) \<Rightarrow> nat" where
  "fundamental_period P row =
     (case find (is_period P row) [1..<Suc P] of Some q \<Rightarrow> q | None \<Rightarrow> P)"


definition C2_rows_101 :: queue where
  "C2_rows_101 = \<lparr>statespace = (\<lambda>_. 0)(1 := 1, 3 := 1), firstUnprocessedState = 0,
                   firstFreeState = 4\<rparr>"

definition C2_rows_11 :: queue where
  "C2_rows_11 = \<lparr>statespace = (\<lambda>_. 0)(1 := 1, 2 := 1), firstUnprocessedState = 0,
                  firstFreeState = 3\<rparr>"

definition C2_p0 :: "nat \<Rightarrow> int" where
  "C2_p0 = (\<lambda>_. 0)"

text \<open>
  A border of the prefix of length \<open>n\<close>: a proper prefix that is also a suffix.
  \<open>is_lb\<close> says that \<open>b\<close> is the length of the longest one.
\<close>

definition border :: "(nat \<Rightarrow> Row) \<Rightarrow> nat \<Rightarrow> nat \<Rightarrow> bool" where
  "border row n b = (b < n \<and> (\<forall>j<b. row j = row (n - b + j)))"

definition is_lb :: "(nat \<Rightarrow> Row) \<Rightarrow> nat \<Rightarrow> nat \<Rightarrow> bool" where
  "is_lb row n b = (border row n b \<and> (\<forall>c. border row n c \<longrightarrow> c \<le> b))"

lemma border_border:
  assumes nb: "border row n b" and bc: "border row b c"
  shows "border row n c"
  unfolding border_def
proof (intro conjI allI impI)
  have bn: "b < n" and cb: "c < b" using nb bc by (simp_all add: border_def)
  have Rn: "row j = row (n - b + j)" if "j < b" for j
    using nb that by (simp add: border_def)
  have Rb: "row j = row (b - c + j)" if "j < c" for j
    using bc that by (simp add: border_def)
  show "c < n" using bn cb by simp
  fix j assume j: "j < c"
  have lt: "b - c + j < b" using j cb by simp
  have e: "n - b + (b - c + j) = n - c + j" using bn cb j by simp
  have "row j = row (b - c + j)" by (rule Rb [OF j])
  also have "\<dots> = row (n - b + (b - c + j))" by (rule Rn [OF lt])
  finally show "row j = row (n - c + j)" unfolding e .
qed

lemma border_of_smaller:
  assumes nb: "border row n b" and nc: "border row n c" and cb: "c < b"
  shows "border row b c"
  unfolding border_def
proof (intro conjI allI impI)
  have bn: "b < n" using nb by (simp add: border_def)
  have Rb: "row j = row (n - b + j)" if "j < b" for j
    using nb that by (simp add: border_def)
  have Rc: "row j = row (n - c + j)" if "j < c" for j
    using nc that by (simp add: border_def)
  show "c < b" by fact
  fix j assume j: "j < c"
  have lt: "b - c + j < b" using j cb by simp
  have e: "n - b + (b - c + j) = n - c + j" using bn cb j by simp
  have "row (b - c + j) = row (n - b + (b - c + j))" by (rule Rb [OF lt])
  also have "\<dots> = row (n - c + j)" unfolding e ..
  also have "\<dots> = row j" by (rule Rc [OF j, symmetric])
  finally show "row j = row (b - c + j)" by simp
qed

lemma border_Suc: "border row (Suc n) (Suc b) = (border row n b \<and> row b = row n)"
  by (auto simp: border_def less_Suc_eq)

lemma border_0: "border row (Suc n) 0"
  by (simp add: border_def)


lemma kmp_while_correct:
  assumes inv: "\<forall>j<i. - 1 \<le> p j \<and> is_lb row (Suc j) (nat (p j + 1))"
    and k0: "0 \<le> p i"
    and kb: "border row i (nat (p i))"
    and big: "\<forall>b. border row i b \<and> nat (p i) < b \<longrightarrow> row b \<noteq> row i"
  shows "\<exists>p'. kmp_while row i p = Some p' \<and> (\<forall>j. j \<noteq> i \<longrightarrow> p' j = p j)
            \<and> - 1 \<le> p' i \<and> is_lb row (Suc i) (nat (p' i + 1))"
  using assms
proof (induction "nat (p i)" arbitrary: p rule: less_induct)
  case less
  define k where "k = nat (p i)"
  have pk: "p i = int k" using less.prems(2) by (simp add: k_def)
  have kb: "border row i k" using less.prems(3) by (simp add: k_def)
  have big: "row b \<noteq> row i" if "border row i b" "k < b" for b
    using less.prems(4) that by (simp add: k_def)
  show ?case
  proof (cases "row k = row i")
    case True
    have ret: "kmp_while row i p = Some p"
      using True by (subst kmp_while.simps) (simp add: pk)
    have "border row (Suc i) (Suc k)" using kb True by (simp add: border_Suc)
    moreover have "c \<le> Suc k" if c: "border row (Suc i) c" for c
    proof (cases c)
      case 0 then show ?thesis by simp
    next
      case (Suc c')
      with c have "border row i c'" "row c' = row i" by (simp_all add: border_Suc)
      with big [of c'] have "\<not> k < c'" by auto
      with Suc show ?thesis by simp
    qed
    ultimately have "is_lb row (Suc i) (Suc k)" by (auto simp: is_lb_def)
    moreover have "nat (p i + 1) = Suc k" by (simp add: pk)
    ultimately show ?thesis using ret pk by auto
  next
    case False
    show ?thesis
    proof (cases "k = 0")
      case True
      have ret: "kmp_while row i p = Some (p(i := - 1))"
        using False True by (subst kmp_while.simps) (simp add: pk)
      have "c = 0" if c: "border row (Suc i) c" for c
      proof (cases c)
        case 0 then show ?thesis .
      next
        case (Suc c')
        with c have c': "border row i c'" "row c' = row i" by (simp_all add: border_Suc)
        with big [of c'] have "c' = 0" using True by auto
        with c' False True show ?thesis by simp
      qed
      then have "is_lb row (Suc i) 0" by (auto simp: is_lb_def border_0)
      then show ?thesis using ret by auto
    next
      case kpos: False
      define p1 where "p1 = p(i := p (nat (p i - 1)) + 1)"
      have ki: "k < i" using kb by (simp add: border_def)
      have idx: "nat (p i - 1) = k - 1" by (simp add: pk)
      have km: "k - 1 < i" "k - 1 \<noteq> i" "Suc (k - 1) = k" using ki kpos by simp_all
      from less.prems(1) km have lo: "- 1 \<le> p (k - 1)" and lb: "is_lb row k (nat (p (k - 1) + 1))"
        by (auto simp: km)
      define k' where "k' = nat (p (k - 1) + 1)"
      have p1i: "p1 i = int k'" using lo by (simp add: p1_def idx k'_def)
      have bk: "border row k k'" using lb by (simp add: is_lb_def k'_def)
      then have k'k: "k' < k" by (simp add: border_def)
      have unf: "kmp_while row i p = kmp_while row i p1"
        using False kpos by (subst kmp_while.simps) (simp add: pk p1_def)
      have 1: "\<forall>j<i. - 1 \<le> p1 j \<and> is_lb row (Suc j) (nat (p1 j + 1))"
        using less.prems(1) by (simp add: p1_def)
      have 2: "0 \<le> p1 i" by (simp add: p1i)
      have 3: "border row i (nat (p1 i))"
        using border_border [OF kb bk] by (simp add: p1i)
      have 4: "\<forall>b. border row i b \<and> nat (p1 i) < b \<longrightarrow> row b \<noteq> row i"
      proof (intro allI impI)
        fix b assume b: "border row i b \<and> nat (p1 i) < b"
        then have bb: "border row i b" and lt: "k' < b" by (simp_all add: p1i)
        consider "k < b" | "b = k" | "b < k" by linarith
        then show "row b \<noteq> row i"
        proof cases
          case 1 then show ?thesis using big bb by simp
        next
          case 2 then show ?thesis using False by simp
        next
          case 3
          have "border row k b" by (rule border_of_smaller [OF kb bb 3])
          with lb have "b \<le> k'" by (simp add: is_lb_def k'_def)
          with lt show ?thesis by simp
        qed
      qed
      have m: "nat (p1 i) < nat (p i)" using k'k by (simp add: p1i pk)
      from less.hyps [OF m 1 2 3 4] obtain p' where
        "kmp_while row i p1 = Some p'" "\<forall>j. j \<noteq> i \<longrightarrow> p' j = p1 j"
        "- 1 \<le> p' i" "is_lb row (Suc i) (nat (p' i + 1))" by blast
      then show ?thesis unfolding unf by (auto simp: p1_def)
    qed
  qed
qed


lemma kmp_for_correct:
  assumes "1 \<le> i" "i \<le> P"
    and "\<forall>j<i. - 1 \<le> p j \<and> is_lb row (Suc j) (nat (p j + 1))"
  shows "\<exists>p'. kmp_for row [i..<P] p = Some p'
            \<and> (\<forall>j<P. - 1 \<le> p' j \<and> is_lb row (Suc j) (nat (p' j + 1)))"
  using assms
proof (induction "P - i" arbitrary: i p)
  case 0
  then show ?case by simp
next
  case (Suc d)
  then have iP: "i < P" by simp
  have im: "i - 1 < i" "Suc (i - 1) = i" using Suc.prems(1) by simp_all
  define p1 where "p1 = p(i := p (i - 1) + 1)"
  from Suc.prems(3) [rule_format, of "i - 1"] im
  have lo: "- 1 \<le> p (i - 1)" and lb: "is_lb row i (nat (p (i - 1) + 1))"
    by simp_all
  have 1: "\<forall>j<i. - 1 \<le> p1 j \<and> is_lb row (Suc j) (nat (p1 j + 1))"
    using Suc.prems(3) by (simp add: p1_def)
  have 2: "0 \<le> p1 i" using lo by (simp add: p1_def)
  have 3: "border row i (nat (p1 i))" using lb by (simp add: p1_def is_lb_def)
  have 4: "\<forall>b. border row i b \<and> nat (p1 i) < b \<longrightarrow> row b \<noteq> row i"
    using lb by (auto simp: p1_def is_lb_def)
  from kmp_while_correct [OF 1 2 3 4] obtain p2 where
    w: "kmp_while row i p1 = Some p2" and same: "\<forall>j. j \<noteq> i \<longrightarrow> p2 j = p1 j"
    and new: "- 1 \<le> p2 i" "is_lb row (Suc i) (nat (p2 i + 1))" by blast
  have inv2: "\<forall>j<Suc i. - 1 \<le> p2 j \<and> is_lb row (Suc j) (nat (p2 j + 1))"
    using 1 same new by (auto simp: less_Suc_eq)
  have d: "d = P - Suc i" using Suc.hyps(2) by simp
  from Suc.hyps(1) [OF d _ _ inv2] iP obtain p' where
    "kmp_for row [Suc i..<P] p2 = Some p'"
    "\<forall>j<P. - 1 \<le> p' j \<and> is_lb row (Suc j) (nat (p' j + 1))" by auto
  then show ?case using iP w by (simp add: upt_conv_Cons p1_def)
qed

lemma is_period_border:
  assumes "1 \<le> q" "q \<le> P"
  shows "is_period P row q = border row P (P - q)"
  using assms by (auto simp: is_period_def border_def add.commute)

lemma find_upt_least:
  "(find Q [a..<b] = Some q) = (a \<le> q \<and> q < b \<and> Q q \<and> (\<forall>j. a \<le> j \<and> j < q \<longrightarrow> \<not> Q j))"
proof (induction "b - a" arbitrary: a)
  case 0
  then show ?case by auto
next
  case (Suc d)
  then have ab: "a < b" and d: "d = b - Suc a" by simp_all
  show ?case
  proof (cases "Q a")
    case True
    then show ?thesis using ab
      by (auto simp: upt_conv_Cons)
  next
    case False
    have "(\<forall>j. a \<le> j \<and> j < q \<longrightarrow> \<not> Q j) = (\<forall>j. Suc a \<le> j \<and> j < q \<longrightarrow> \<not> Q j)" for q
    proof (intro iffI allI impI)
      fix j assume "\<forall>j. a \<le> j \<and> j < q \<longrightarrow> \<not> Q j" "Suc a \<le> j \<and> j < q"
      then show "\<not> Q j" by simp
    next
      fix j assume h: "\<forall>j. Suc a \<le> j \<and> j < q \<longrightarrow> \<not> Q j" "a \<le> j \<and> j < q"
      show "\<not> Q j"
      proof (cases "j = a")
        case True then show ?thesis using False by simp
      next
        case False with h show ?thesis by simp
      qed
    qed
    moreover have "(a \<le> q \<and> Q q) = (Suc a \<le> q \<and> Q q)"
      using False by (cases "q = a") auto
    moreover have "find Q [a..<b] = find Q [Suc a..<b]"
      using ab False by (simp add: upt_conv_Cons)
    ultimately show ?thesis using Suc.hyps(1) [OF d] by metis
  qed
qed

lemma fundamental_period_lb:
  assumes P: "1 \<le> P" and lb: "is_lb row P b"
  shows "fundamental_period P row = P - b"
proof -
  have bP: "b < P" using lb by (simp add: is_lb_def border_def)
  have per: "is_period P row (P - b)"
    using lb bP by (simp add: is_period_border is_lb_def)
  have least: "\<not> is_period P row j" if "1 \<le> j" "j < P - b" for j
  proof
    assume "is_period P row j"
    then have "border row P (P - j)" using that by (simp add: is_period_border)
    then have "P - j \<le> b" using lb by (simp add: is_lb_def)
    with that show False by simp
  qed
  have "find (is_period P row) [1..<Suc P] = Some (P - b)"
    unfolding find_upt_least using per least bP by auto
  then show ?thesis by (simp add: fundamental_period_def)
qed

lemma is_lb_1: "is_lb row (Suc 0) 0"
  by (auto simp: is_lb_def border_def)

text \<open>
  Claim C2, as stated: for \<open>2 \<le> P \<le> 19\<close>, \<open>aperiodic(s)\<close> is true if and only if the
  fundamental period \<open>q\<close> of the rows equals \<open>P\<close>.  The rows \<open>1, 0, 1\<close> with \<open>P = 3\<close> have
  \<open>q = 2\<close> (\<open>rows[0] = rows[2]\<close>), and \<open>aperiodic\<close> returns 1: the function tests whether
  \<open>q\<close> divides \<open>P\<close>, not whether it equals \<open>P\<close>.
\<close>

theorem C2_aperiodic_counterexample:
  "aperiodic 3 C2_p0 C2_rows_101 0 = Some 1
   \<and> fundamental_period 3 (rowOfState C2_rows_101 0) = 2"
  by (simp add: aperiodic_def C2_rows_101_def C2_p0_def rowOfState_def upt_conv_Cons
      kmp_while.simps fundamental_period_def is_period_def numeral_2_eq_2)

text \<open>
  Claim C2, amended: for \<open>P = 1\<close>, \<open>aperiodic(s)\<close> returns true if and only if
  \<open>rows[0]\<close> is nonzero; for \<open>2 \<le> P \<le> 19\<close> it returns (the loops end, whatever the
  array \<open>p\<close> held at entry) and the result is true if and only if the fundamental
  period \<open>q\<close> equals \<open>P\<close> or does not divide \<open>P\<close>.
\<close>

theorem C2_aperiodic:
  "(P = 1 \<longrightarrow> aperiodic P p0 q s = Some (if rowOfState q s 0 \<noteq> 0 then 1 else 0))
   \<and> (2 \<le> P \<and> P \<le> 19 \<longrightarrow>
        aperiodic P p0 q s =
           Some (if fundamental_period P (rowOfState q s) = P
                    \<or> P mod fundamental_period P (rowOfState q s) \<noteq> 0 then 1 else 0))"
proof (intro conjI impI)
  assume "P = 1"
  then show "aperiodic P p0 q s = Some (if rowOfState q s 0 \<noteq> 0 then 1 else 0)"
    by (simp add: aperiodic_def)
next
  assume "2 \<le> P \<and> P \<le> 19"
  then have assms: "2 \<le> P" "P \<le> 19" by simp_all
  show "aperiodic P p0 q s =
           Some (if fundamental_period P (rowOfState q s) = P
                    \<or> P mod fundamental_period P (rowOfState q s) \<noteq> 0 then 1 else 0)"
proof -
  let ?row = "rowOfState q s"
  have "\<exists>p'. kmp_for ?row [1..<P] (p0(0 := - 1)) = Some p'
            \<and> (\<forall>j<P. - 1 \<le> p' j \<and> is_lb ?row (Suc j) (nat (p' j + 1)))"
    using assms by (intro kmp_for_correct) (auto simp: is_lb_1)
  then obtain p where run: "kmp_for ?row [1..<P] (p0(0 := - 1)) = Some p"
    and inv: "\<forall>j<P. - 1 \<le> p j \<and> is_lb ?row (Suc j) (nat (p j + 1))" by blast
  define b where "b = nat (p (P - 1) + 1)"
  from inv assms have lo: "- 1 \<le> p (P - 1)" and lb: "is_lb ?row P b"
    by (auto simp: b_def dest!: spec [of _ "P - 1"])
  have bP: "b < P" using lb by (simp add: is_lb_def border_def)
  have fp: "fundamental_period P ?row = P - b"
    using assms by (intro fundamental_period_lb [OF _ lb]) simp
  have i: "int P - (p (P - 1) + 1) = int (P - b)"
    using lo bP by (simp add: b_def)
  have pos: "0 < P - b" using bP by simp
  have "(int P - (p (P - 1) + 1) = int P \<or> int P mod (int P - (p (P - 1) + 1)) \<noteq> 0)
      = (P - b = P \<or> P mod (P - b) \<noteq> 0)"
    unfolding i by (simp add: of_nat_mod [symmetric] del: of_nat_mod)
  then show ?thesis
    using assms run by (simp add: aperiodic_def Let_def fp)
qed


qed

text \<open>
  The rows \<open>1, 1\<close> with \<open>P = 2\<close> have fundamental period 1, which divides 2: not
  aperiodic.  With \<open>P = 1\<close> the single row 1 is nonzero: aperiodic.
\<close>

theorem C2_aperiodic_witness:
  "aperiodic 2 C2_p0 C2_rows_11 0 = Some 0 \<and> aperiodic 1 C2_p0 C2_rows_11 0 = Some 1"
proof -
  have fp: "fundamental_period 2 (rowOfState C2_rows_11 0) = 1"
    by (simp add: C2_rows_11_def rowOfState_def fundamental_period_def is_period_def
        upt_conv_Cons numeral_2_eq_2)
  have r0: "rowOfState C2_rows_11 0 0 \<noteq> 0"
    by (simp add: C2_rows_11_def rowOfState_def)
  from C2_aperiodic [of 2 C2_p0 C2_rows_11 0] have "aperiodic 2 C2_p0 C2_rows_11 0 = Some 0"
    by (simp add: fp)
  moreover from C2_aperiodic [of 1 C2_p0 C2_rows_11 0] r0
  have "aperiodic 1 C2_p0 C2_rows_11 0 = Some 1"
    by simp
  ultimately show ?thesis by simp
qed


section \<open>Extension rows\<close>

text \<open>
  \<^verbatim>\<open>#define EXTIDX(x,a,b,c) (((x)<<7) | (((a)&7)<<4) | (((b)&7)<<1) | (((c)&2)>>1))\<close>
  \<open>x\<close> is an \<^verbatim>\<open>int\<close>, the rows are unsigned, so the index is an unsigned 32-bit value.
\<close>

definition EXTIDX :: "int \<Rightarrow> Row \<Rightarrow> Row \<Rightarrow> Row \<Rightarrow> Row" where
  "EXTIDX x a b c =
     push_bit 7 (word_of_int x) OR push_bit 4 (a AND 7) OR push_bit 1 (b AND 7)
       OR drop_bit 1 (c AND 2)"

text \<open>
  \<^verbatim>\<open>#define maskedExtension(x,a,b,c,m) (extTab[EXTIDX(x,a,b,c)]&extTab[(m)&(EXTIDX(x,a,b,c))])\<close>
  The table \<^verbatim>\<open>int extTab[NEXTTAB]\<close> is a parameter of the functions that read it.
\<close>

definition maskedExtension :: "(int \<Rightarrow> int) \<Rightarrow> int \<Rightarrow> Row \<Rightarrow> Row \<Rightarrow> Row \<Rightarrow> Row \<Rightarrow> int" where
  "maskedExtension extTab x a b c m =
     extTab (uint (EXTIDX x a b c)) AND extTab (uint (m AND EXTIDX x a b c))"

text \<open>
  \<^verbatim>\<open>for (i = 0; i < totalWidth; i++) {
    extensions[i] = x = maskedExtension(x,a,b,c,sparkMask);
    a >>= 1; b >>= 1; c >>= 1;
  }\<close>
\<close>

fun setupExtensions_loop ::
  "(int \<Rightarrow> int) \<Rightarrow> Row \<Rightarrow> nat list \<Rightarrow> int \<Rightarrow> Row \<Rightarrow> Row \<Rightarrow> Row \<Rightarrow> (int \<Rightarrow> int) \<Rightarrow> (int \<Rightarrow> int)" where
  "setupExtensions_loop extTab sparkMask [] x a b c extensions = extensions"
| "setupExtensions_loop extTab sparkMask (i # is) x a b c extensions =
     (let x' = maskedExtension extTab x a b c sparkMask
      in setupExtensions_loop extTab sparkMask is x' (drop_bit 1 a) (drop_bit 1 b) (drop_bit 1 c)
           (extensions(int i := x')))"

text \<open>
  \<^verbatim>\<open>switch (symmetry) {
    case none: x = 1;
      x = maskedExtension(x,a<<2,b<<2,c<<2,sparkMask);
      x = maskedExtension(x,a<<1,b<<1,c<<1,sparkMask); break;
    case odd: x = 0377;
      x = maskedExtension(x,(a<<1) | ((a&2)>>1), (b<<1) | ((b&2)>>1), c<<1, sparkMask);
      x &= 0245; break;
    case even: x = 0303;
      x = maskedExtension(x, (a<<1) | (a&1), (b<<1) | (b&1), c<<1, sparkMask); break;
  }\<close>
  The result is the array \<^verbatim>\<open>int extensions[32]\<close> after the call.
\<close>

definition setupExtensions ::
  "sym_type \<Rightarrow> (int \<Rightarrow> int) \<Rightarrow> widths \<Rightarrow> Row \<Rightarrow> Row \<Rightarrow> Row \<Rightarrow> Row \<Rightarrow> (int \<Rightarrow> int) \<Rightarrow> (int \<Rightarrow> int)" where
  "setupExtensions symmetry extTab w a b c sparkMask extensions =
     (let x = (case symmetry of
                 none \<Rightarrow>
                   (let x1 = maskedExtension extTab 1 (push_bit 2 a) (push_bit 2 b) (push_bit 2 c) sparkMask
                    in maskedExtension extTab x1 (push_bit 1 a) (push_bit 1 b) (push_bit 1 c) sparkMask)
               | odd \<Rightarrow>
                   (maskedExtension extTab 255 (push_bit 1 a OR drop_bit 1 (a AND 2))
                      (push_bit 1 b OR drop_bit 1 (b AND 2)) (push_bit 1 c) sparkMask) AND 165
               | even \<Rightarrow>
                   maskedExtension extTab 195 (push_bit 1 a OR (a AND 1))
                      (push_bit 1 b OR (b AND 1)) (push_bit 1 c) sparkMask)
      in setupExtensions_loop extTab sparkMask [0..<totalWidth w] x a b c extensions)"


section \<open>Compatibility of pairs of rows\<close>

text \<open>
  \<^verbatim>\<open>Row compatBits[NCOMPAT]; int firstCompat[MAXPERIOD]; int compatBlockLength[MAXPERIOD];\<close>
\<close>

record compat =
  compatBits :: "int \<Rightarrow> Row"
  firstCompat :: "nat \<Rightarrow> int"
  compatBlockLength :: "nat \<Rightarrow> int"

definition NCOMPAT :: int where
  "NCOMPAT = 2 ^ 21"

text \<open>The parameters of a search that the expansion of a state reads.\<close>

record search_env =
  period :: nat
  symmetry :: sym_type
  extTab :: "int \<Rightarrow> int"
  width :: widths
  rule :: int
  allow_row_sym :: bool
  zeroLotLine :: bool

text \<open>\<^verbatim>\<open>int prevPhase = phase - 1; if (prevPhase < 0) prevPhase = period - 1;\<close>\<close>

definition prevPhase_of :: "nat \<Rightarrow> nat \<Rightarrow> nat" where
  "prevPhase_of P phase = (if int phase - 1 < 0 then P - 1 else phase - 1)"

text \<open>
  The second half of \<open>testCompatible\<close>, from the computation of \<open>b\<close> on:
  \<^verbatim>\<open>b = compatBits + firstCompat[phase] + (compatBlockLength[phase]*(rowIndex-firstRow[phase]));
  if (prevRowIndex == firstRow[prevPhase]) { for (i = 0; i < compatBlockLength[phase]; i++) b[i] = 0; }
  if ((rows[prevRowIndex] & STATMASK) != (rows[rowIndex] & STATMASK)) return;
  setupExtensions(rows[prevRowIndex],rowOfState(s, prevPhase),rows[rowIndex],-1L);
  if (03 & extensions[totalWidth - 1]) {
    int i = prevRowIndex - firstRow[prevPhase];
    b[i>>5] |= ((Row) 1) << (i&037);
  }\<close>
  The state is the compatibility store together with the array \<open>extensions\<close>.
\<close>

definition testCompatible_store ::
  "search_env \<Rightarrow> rowbuf \<Rightarrow> queue \<Rightarrow> nat \<Rightarrow> int \<Rightarrow> int \<Rightarrow> int \<Rightarrow> compat \<times> (int \<Rightarrow> int)
     \<Rightarrow> compat \<times> (int \<Rightarrow> int)" where
  "testCompatible_store env rb q phase prevRowIndex rowIndex s ce =
     (let cs1 = fst ce; extensions = snd ce;
          prevPhase = prevPhase_of (period env) phase;
          b = firstCompat cs1 phase
                + compatBlockLength cs1 phase * (rowIndex - firstRow rb phase);
          cs2 = (if prevRowIndex = firstRow rb prevPhase
                 then cs1\<lparr>compatBits :=
                        fold (\<lambda>i bits. bits(b + int i := 0))
                          [0..<nat (compatBlockLength cs1 phase)] (compatBits cs1)\<rparr>
                 else cs1)
      in if (rows rb prevRowIndex AND STATMASK (width env))
              \<noteq> (rows rb rowIndex AND STATMASK (width env))
         then (cs2, extensions)
         else
           (let extensions' = setupExtensions (symmetry env) (extTab env) (width env)
                  (rows rb prevRowIndex) (rowOfState q s prevPhase) (rows rb rowIndex)
                  (- 1) extensions
            in if 3 AND extensions' (int (totalWidth (width env)) - 1) \<noteq> 0
               then (let i = prevRowIndex - firstRow rb prevPhase
                     in (cs2\<lparr>compatBits := (compatBits cs2)
                               (b + drop_bit 5 i :=
                                  compatBits cs2 (b + drop_bit 5 i)
                                    OR push_bit (nat (i AND 31)) 1)\<rparr>, extensions'))
               else (cs2, extensions')))"

text \<open>
  \<^verbatim>\<open>if (rowIndex == firstRow[phase]) {
    if (phase == 0) firstCompat[0] = 0;
    else firstCompat[phase] = firstCompat[prevPhase] + (compatBlockLength[prevPhase]*nRows[prevPhase]);
    compatBlockLength[phase] = (nRows[prevPhase]+31)>>5;
    if (firstCompat[phase]+(compatBlockLength[phase]*nRows[phase]) > NCOMPAT) { ...; failure(); }
  }\<close>
  The products are taken in unbounded integers.
\<close>

definition testCompatible ::
  "search_env \<Rightarrow> rowbuf \<Rightarrow> queue \<Rightarrow> nat \<Rightarrow> int \<Rightarrow> int \<Rightarrow> int \<Rightarrow> compat \<times> (int \<Rightarrow> int)
     \<Rightarrow> exit_reason + compat \<times> (int \<Rightarrow> int)" where
  "testCompatible env rb q phase prevRowIndex rowIndex s ce =
     (let cs = fst ce; extensions = snd ce;
          prevPhase = prevPhase_of (period env) phase
      in if rowIndex = firstRow rb phase
         then (let c1 = cs\<lparr>firstCompat := (firstCompat cs)
                             (phase := (if phase = 0 then 0
                                        else firstCompat cs prevPhase
                                             + compatBlockLength cs prevPhase * nRows rb prevPhase))\<rparr>;
                   c2 = c1\<lparr>compatBlockLength := (compatBlockLength c1)
                             (phase := drop_bit 5 (nRows rb prevPhase + 31))\<rparr>
               in if firstCompat c2 phase + compatBlockLength c2 phase * nRows rb phase > NCOMPAT
                  then Inl CompatExceeded
                  else Inr (testCompatible_store env rb q phase prevRowIndex rowIndex s
                              (c2, extensions)))
         else Inr (testCompatible_store env rb q phase prevRowIndex rowIndex s ce))"

text \<open>
  \<^verbatim>\<open>b = compatBits + firstCompat[phase] + (compatBlockLength[phase]*(rowIndex-firstRow[phase]));
  i = prevRowIndex - firstRow[prevPhase];
  return b[i>>5] & (((Row) 1) << (i & 037));\<close>
  The unsigned value is returned as an \<^verbatim>\<open>int\<close>.
\<close>

definition compatible :: "nat \<Rightarrow> rowbuf \<Rightarrow> compat \<Rightarrow> nat \<Rightarrow> int \<Rightarrow> int \<Rightarrow> int" where
  "compatible P rb cs phase prevRowIndex rowIndex =
     (let prevPhase = prevPhase_of P phase;
          b = firstCompat cs phase + compatBlockLength cs phase * (rowIndex - firstRow rb phase);
          i = prevRowIndex - firstRow rb prevPhase
      in sint (compatBits cs (b + drop_bit 5 i) AND push_bit (nat (i AND 31)) 1))"


text \<open>
  The loops of \<open>processGroup\<close> that fill the block of one phase:
  \<^verbatim>\<open>for (i = 0; i < nRows[prevPhase]; i++)
    for (j = 0; j < nRows[phase]; j++)
      testCompatible(phase, firstRow[prevPhase]+i, firstRow[phase]+j, s);\<close>
  The lists are the values of \<open>j\<close> and of \<open>i\<close> still to be visited.
\<close>

fun testCompatible_js ::
  "search_env \<Rightarrow> rowbuf \<Rightarrow> queue \<Rightarrow> nat \<Rightarrow> int \<Rightarrow> nat \<Rightarrow> nat list \<Rightarrow> compat \<times> (int \<Rightarrow> int)
     \<Rightarrow> exit_reason + compat \<times> (int \<Rightarrow> int)" where
  "testCompatible_js env rb q phase s i [] ce = Inr ce"
| "testCompatible_js env rb q phase s i (j # js) ce =
     (case testCompatible env rb q phase
             (firstRow rb (prevPhase_of (period env) phase) + int i)
             (firstRow rb phase + int j) s ce of
        Inl e \<Rightarrow> Inl e
      | Inr ce' \<Rightarrow> testCompatible_js env rb q phase s i js ce')"

fun testCompatible_is ::
  "search_env \<Rightarrow> rowbuf \<Rightarrow> queue \<Rightarrow> nat \<Rightarrow> int \<Rightarrow> nat list \<Rightarrow> compat \<times> (int \<Rightarrow> int)
     \<Rightarrow> exit_reason + compat \<times> (int \<Rightarrow> int)" where
  "testCompatible_is env rb q phase s [] ce = Inr ce"
| "testCompatible_is env rb q phase s (i # is) ce =
     (case testCompatible_js env rb q phase s i [0..<nat (nRows rb phase)] ce of
        Inl e \<Rightarrow> Inl e
      | Inr ce' \<Rightarrow> testCompatible_is env rb q phase s is ce')"

section \<open>Bit matrices: words, bits and block indices\<close>

lemma and_31_mod: "nat (int i AND 31) = i mod 32"
proof -
  have "int i AND 31 = int i AND mask 5" by (simp add: mask_eq_exp_minus_1)
  also have "\<dots> = int i mod 32" by (simp add: take_bit_eq_mask [symmetric] take_bit_eq_mod)
  finally show ?thesis by (simp add: nat_mod_distrib)
qed

lemma drop_bit_5_div: "drop_bit 5 (int i) = int (i div 32)"
  by (simp add: drop_bit_eq_div zdiv_int)

lemma row_bit_test:
  fixes w :: Row
  assumes "n < 32"
  shows "(sint (w AND push_bit n 1) \<noteq> 0) = bit w n"
    and "(w AND push_bit n 1 \<noteq> 0) = bit w n"
proof -
  show b: "(w AND push_bit n 1 \<noteq> 0) = bit w n"
    using assms by (simp add: push_bit_of_1 and_exp_eq_0_iff_not_bit)
  have "(sint (w AND push_bit n 1) = 0) = (w AND push_bit n 1 = 0)"
    by (simp add: signed_eq_0_iff)
  then show "(sint (w AND push_bit n 1) \<noteq> 0) = bit w n" using b by simp
qed

lemma row_bit_set:
  fixes w :: Row
  assumes "n < 32" "m < 32"
  shows "bit (w OR push_bit n 1) m = (bit w m \<or> m = n)"
  using assms by (auto simp: bit_or_iff push_bit_of_1 bit_exp_iff)

lemma div32_less: "i < n \<Longrightarrow> int (i div 32) < drop_bit 5 (int n + 31)"
proof -
  assume "i < n"
  then have "i div 32 < (n + 31) div 32" by (simp add: div_less_iff_less_mult) 
  then show ?thesis
    by (simp add: drop_bit_eq_div zdiv_int [symmetric] del: zdiv_int) 
qed

lemma block_index_inj:
  assumes "0 \<le> a" "a < bl" "0 \<le> a'" "a' < bl"
  shows "((fc::int) + bl * int j + a = fc + bl * int j' + a') = (j = j' \<and> a = a')"
proof
  assume e: "fc + bl * int j + a = fc + bl * int j' + a'"
  show "j = j' \<and> a = a'"
  proof (cases "j = j'")
    case True with e show ?thesis by simp
  next
    case False
    then consider "j < j'" | "j' < j" by linarith
    then show ?thesis
    proof cases
      case 1
      then have "int j + 1 \<le> int j'" by simp
      then have "bl * (int j + 1) \<le> bl * int j'" using assms by (intro mult_left_mono) auto
      with e assms show ?thesis by (simp add: algebra_simps)
    next
      case 2
      then have "int j' + 1 \<le> int j" by simp
      then have "bl * (int j' + 1) \<le> bl * int j" using assms by (intro mult_left_mono) auto
      with e assms show ?thesis by (simp add: algebra_simps)
    qed
  qed
qed simp


lemma row_bit_test_exp:
  fixes w :: Row
  assumes "n < 32"
  shows "(sint (w AND 2 ^ n) \<noteq> 0) = bit w n"
    and "(w AND 2 ^ n \<noteq> 0) = bit w n"
  using row_bit_test [OF assms, of w] by (simp_all add: push_bit_of_1)

lemma row_bit_set_exp:
  fixes w :: Row
  assumes "n < 32" "m < 32"
  shows "bit (w OR 2 ^ n) m = (bit w m \<or> m = n)"
  using row_bit_set [OF assms, of w] by (simp add: push_bit_of_1)


section \<open>Properties of the compatibility test\<close>

text \<open>
  The condition under which \<open>testCompatible\<close> sets a bit, for the \<open>i\<close>-th candidate of
  the previous phase and the \<open>j\<close>-th candidate of the phase: the stator columns agree
  and, after \<open>setupExtensions\<close> on the two rows, one of the two low bits of
  \<open>extensions[totalWidth - 1]\<close> is set.  \<open>compat_bit\<close> is the stored bit of the pair.
\<close>

definition compat_cond ::
  "search_env \<Rightarrow> rowbuf \<Rightarrow> queue \<Rightarrow> nat \<Rightarrow> int \<Rightarrow> (int \<Rightarrow> int) \<Rightarrow> nat \<Rightarrow> nat \<Rightarrow> bool" where
  "compat_cond env rb q phase s extensions i j =
     (let prevPhase = prevPhase_of (period env) phase;
          prevRow = rows rb (firstRow rb prevPhase + int i);
          row = rows rb (firstRow rb phase + int j)
      in (prevRow AND STATMASK (width env)) = (row AND STATMASK (width env))
         \<and> 3 AND setupExtensions (symmetry env) (extTab env) (width env) prevRow
                   (rowOfState q s prevPhase) row (- 1) extensions
                   (int (totalWidth (width env)) - 1) \<noteq> 0)"

definition compat_bit :: "compat \<Rightarrow> nat \<Rightarrow> nat \<Rightarrow> nat \<Rightarrow> bool" where
  "compat_bit cs phase i j =
     bit (compatBits cs (firstCompat cs phase + compatBlockLength cs phase * int j + int (i div 32)))
         (i mod 32)"

lemma compatible_compat_bit:
  "(compatible P rb cs phase (firstRow rb (prevPhase_of P phase) + int i) (firstRow rb phase + int j) \<noteq> 0)
     = compat_bit cs phase i j"
  by (simp add: compatible_def compat_bit_def Let_def row_bit_test_exp and_31_mod drop_bit_5_div)

lemma setupExtensions_loop_other:
  "k \<notin> int ` set is \<Longrightarrow> setupExtensions_loop T m is x a b c e k = e k"
  by (induction "is" arbitrary: x a b c e) (auto simp: Let_def)

lemma setupExtensions_loop_indep:
  "k \<in> int ` set is \<Longrightarrow>
     setupExtensions_loop T m is x a b c e k = setupExtensions_loop T m is x a b c e' k"
proof (induction "is" arbitrary: x a b c e e')
  case Nil
  then show ?case by simp
next
  case (Cons i "is")
  show ?case
  proof (cases "k \<in> int ` set is")
    case True
    then show ?thesis using Cons.IH by (simp add: Let_def)
  next
    case False
    with Cons.prems have "k = int i" by auto
    with False show ?thesis by (simp add: Let_def setupExtensions_loop_other)
  qed
qed

lemma setupExtensions_last_indep:
  assumes "1 \<le> totalWidth w"
  shows "setupExtensions sy T w a b c m e (int (totalWidth w) - 1)
       = setupExtensions sy T w a b c m e' (int (totalWidth w) - 1)"
proof -
  have "int (totalWidth w) - 1 = int (totalWidth w - 1)" using assms by simp
  moreover have "totalWidth w - 1 \<in> set [0..<totalWidth w]" using assms by simp
  ultimately have "int (totalWidth w) - 1 \<in> int ` set [0..<totalWidth w]" by (metis imageI)
  then show ?thesis
    unfolding setupExtensions_def Let_def by (rule setupExtensions_loop_indep)
qed

lemma compat_cond_indep:
  "1 \<le> totalWidth (width env) \<Longrightarrow>
     compat_cond env rb q phase s e i j = compat_cond env rb q phase s e' i j"
  unfolding compat_cond_def Let_def
  using setupExtensions_last_indep [of "width env" _ _ _ _ _ _ e e'] by simp

lemma fold_clear_block:
  "fold (\<lambda>i bits. bits(b + int i := (0::Row))) [0..<n] bits x =
     (if b \<le> x \<and> x < b + int n then 0 else bits x)"
  by (induction n) auto

lemma block_member:
  assumes "0 \<le> a" "a < bl"
  shows "((fc::int) + bl * int j \<le> fc + bl * int j' + a \<and> fc + bl * int j' + a < fc + bl * int j + bl)
           = (j = j')"
proof
  assume h: "fc + bl * int j \<le> fc + bl * int j' + a \<and> fc + bl * int j' + a < fc + bl * int j + bl"
  show "j = j'"
  proof (rule ccontr)
    assume "j \<noteq> j'"
    then consider "j < j'" | "j' < j" by linarith
    then show False
    proof cases
      case 1
      then have "int j + 1 \<le> int j'" by simp
      then have "bl * (int j + 1) \<le> bl * int j'" using assms by (intro mult_left_mono) auto
      with h assms show ?thesis by (simp add: algebra_simps)
    next
      case 2
      then have "int j' + 1 \<le> int j" by simp
      then have "bl * (int j' + 1) \<le> bl * int j" using assms by (intro mult_left_mono) auto
      with h assms show ?thesis by (simp add: algebra_simps)
    qed
  qed
next
  assume "j = j'"
  with assms show "fc + bl * int j \<le> fc + bl * int j' + a \<and> fc + bl * int j' + a < fc + bl * int j + bl"
    by simp
qed


lemma testCompatible_store_eq:
  "testCompatible_store env rb q phase
      (firstRow rb (prevPhase_of (period env) phase) + int i) (firstRow rb phase + int j) s (cs, e) =
   (let prev = prevPhase_of (period env) phase;
        b = firstCompat cs phase + compatBlockLength cs phase * int j;
        bits1 = (if i = 0
                 then fold (\<lambda>i bits. bits(b + int i := 0))
                        [0..<nat (compatBlockLength cs phase)] (compatBits cs)
                 else compatBits cs);
        e' = setupExtensions (symmetry env) (extTab env) (width env)
               (rows rb (firstRow rb prev + int i)) (rowOfState q s prev)
               (rows rb (firstRow rb phase + int j)) (- 1) e
    in if (rows rb (firstRow rb prev + int i) AND STATMASK (width env))
            \<noteq> (rows rb (firstRow rb phase + int j) AND STATMASK (width env))
       then (cs\<lparr>compatBits := bits1\<rparr>, e)
       else if 3 AND e' (int (totalWidth (width env)) - 1) \<noteq> 0
       then (cs\<lparr>compatBits := bits1(b + int (i div 32) :=
                                   bits1 (b + int (i div 32)) OR push_bit (i mod 32) 1)\<rparr>, e')
       else (cs\<lparr>compatBits := bits1\<rparr>, e'))"
  by (simp add: testCompatible_store_def Let_def drop_bit_5_div and_31_mod)

lemma testCompatible_store_effect:
  assumes W: "1 \<le> totalWidth (width env)"
    and bl: "compatBlockLength cs phase = drop_bit 5 (nRows rb (prevPhase_of (period env) phase) + 31)"
    and i: "i < nat (nRows rb (prevPhase_of (period env) phase))"
    and res: "testCompatible_store env rb q phase
                (firstRow rb (prevPhase_of (period env) phase) + int i)
                (firstRow rb phase + int j) s (cs, e) = (cs', e')"
  shows "firstCompat cs' = firstCompat cs \<and> compatBlockLength cs' = compatBlockLength cs
     \<and> (\<forall>i2 j2. i2 < nat (nRows rb (prevPhase_of (period env) phase)) \<longrightarrow>
           compat_bit cs' phase i2 j2 =
             (if i2 = i \<and> j2 = j
              then ((i \<noteq> 0 \<and> compat_bit cs phase i j) \<or> compat_cond env rb q phase s e0 i j)
              else if j2 = j \<and> i = 0 then False
              else compat_bit cs phase i2 j2))"
proof -
  define prev where "prev = prevPhase_of (period env) phase"
  define fc where "fc = firstCompat cs phase"
  define blen where "blen = compatBlockLength cs phase"
  define b where "b = fc + blen * int j"
  define cleared where "cleared = (if i = 0
      then (\<lambda>x. if b \<le> x \<and> x < b + blen then 0 else compatBits cs x) else compatBits cs)"
  define c where "c = compat_cond env rb q phase s e i j"
  define final where "final = (if c
      then cleared(b + int (i div 32) := cleared (b + int (i div 32)) OR push_bit (i mod 32) 1)
      else cleared)"
  have nprev: "nRows rb prev = int (nat (nRows rb prev))" using i by (simp add: prev_def)
  have dl: "int (i2 div 32) < blen" if "i2 < nat (nRows rb prev)" for i2
    using div32_less [OF that] nprev bl by (simp add: blen_def prev_def)
  have blen0: "0 \<le> blen" using dl [of i] i by (simp add: prev_def)
  have clr: "fold (\<lambda>i bits. bits(b + int i := 0)) [0..<nat blen] (compatBits cs)
       = (\<lambda>x. if b \<le> x \<and> x < b + blen then 0 else compatBits cs x)"
    using blen0 by (simp add: fun_eq_iff fold_clear_block)
  have cs': "cs' = cs\<lparr>compatBits := final\<rparr>"
    using res unfolding testCompatible_store_eq Let_def
    unfolding prev_def [symmetric] fc_def [symmetric] blen_def [symmetric] b_def [symmetric] clr
    unfolding final_def cleared_def c_def compat_cond_def Let_def prev_def [symmetric]
    by (auto split: if_splits)
  have cc: "compat_cond env rb q phase s e0 i j = c"
    unfolding c_def by (rule compat_cond_indep [OF W])
  have bits: "compat_bit cs' phase i2 j2 =
             (if i2 = i \<and> j2 = j then ((i \<noteq> 0 \<and> compat_bit cs phase i j) \<or> c)
              else if j2 = j \<and> i = 0 then False
              else compat_bit cs phase i2 j2)"
    if i2: "i2 < nat (nRows rb prev)" for i2 j2
  proof -
    define b2 where "b2 = fc + blen * int j2 + int (i2 div 32)"
    have idx_eq: "(b2 = b + int (i div 32)) = (j2 = j \<and> i2 div 32 = i div 32)"
      unfolding b2_def b_def
      using block_index_inj [of "int (i2 div 32)" blen "int (i div 32)" fc j2 j]
        dl [OF i2] dl [of i] i by (simp add: prev_def)
    have inblk: "(b \<le> b2 \<and> b2 < b + blen) = (j = j2)"
      unfolding b2_def b_def
      using block_member [of "int (i2 div 32)" blen fc j j2] dl [OF i2] by simp
    have cl: "cleared b2 = (if i = 0 \<and> j2 = j then 0 else compatBits cs b2)"
      using inblk by (auto simp: cleared_def)
    have same: "(i2 div 32 = i div 32 \<and> i2 mod 32 = i mod 32) = (i2 = i)"
      by (metis div_mult_mod_eq)
    have lhs: "compat_bit cs' phase i2 j2 = bit (final b2) (i2 mod 32)"
      by (simp add: compat_bit_def cs' b2_def fc_def blen_def)
    have old: "compat_bit cs phase i2 j2 = bit (compatBits cs b2) (i2 mod 32)"
      by (simp add: compat_bit_def b2_def fc_def blen_def)
    have old_ij: "j2 = j \<Longrightarrow> i2 = i \<Longrightarrow> compat_bit cs phase i j = bit (compatBits cs b2) (i2 mod 32)"
      using old by simp
    show ?thesis
    proof (cases c)
      case False
      then have "final b2 = cleared b2" by (simp add: final_def)
      then show ?thesis using False cl old lhs by auto
    next
      case True
      show ?thesis
      proof (cases "j2 = j \<and> i2 div 32 = i div 32")
        case w: True
        then have "final b2 = cleared b2 OR push_bit (i mod 32) 1"
          using True idx_eq by (simp add: final_def)
        then have "bit (final b2) (i2 mod 32) = (bit (cleared b2) (i2 mod 32) \<or> i2 mod 32 = i mod 32)"
          by (simp add: row_bit_set_exp)
        then show ?thesis
          using True cl old lhs w same by auto
      next
        case w: False
        then have ne: "b2 \<noteq> b + int (i div 32)" using idx_eq by blast
        have "final b2 = cleared b2"
          using True ne by (simp add: final_def)
        then show ?thesis using w cl old lhs by auto
      qed
    qed
  qed
  show ?thesis
    using bits by (simp add: cs' cc prev_def)
qed


text \<open>
  The header of the block of a phase, and the state of the block when the loops of
  \<open>processGroup\<close> have finished the rows \<open>i < a\<close> of the previous phase and, for row
  \<open>a\<close>, the columns \<open>j < b\<close>.
\<close>

definition compat_hdr :: "search_env \<Rightarrow> rowbuf \<Rightarrow> nat \<Rightarrow> compat \<Rightarrow> bool" where
  "compat_hdr env rb phase cs =
     (let prev = prevPhase_of (period env) phase
      in firstCompat cs phase =
           (if phase = 0 then 0
            else firstCompat cs prev + compatBlockLength cs prev * nRows rb prev)
         \<and> compatBlockLength cs phase = drop_bit 5 (nRows rb prev + 31))"

definition compat_inv ::
  "search_env \<Rightarrow> rowbuf \<Rightarrow> queue \<Rightarrow> nat \<Rightarrow> int \<Rightarrow> (int \<Rightarrow> int) \<Rightarrow> nat \<Rightarrow> nat \<Rightarrow> compat \<Rightarrow> bool" where
  "compat_inv env rb q phase s e0 a b cs =
     (((a \<noteq> 0 \<or> b \<noteq> 0) \<and> 0 < nat (nRows rb phase) \<longrightarrow> compat_hdr env rb phase cs)
      \<and> (\<forall>i < nat (nRows rb (prevPhase_of (period env) phase)). \<forall>j < nat (nRows rb phase).
            (0 < a \<or> j < b) \<longrightarrow>
            compat_bit cs phase i j
              = ((i < a \<or> (i = a \<and> j < b)) \<and> compat_cond env rb q phase s e0 i j)))"

lemma prevPhase_neq: "phase \<noteq> 0 \<Longrightarrow> prevPhase_of P phase \<noteq> phase"
  by (simp add: prevPhase_of_def)

lemma testCompatible_step:
  assumes W: "1 \<le> totalWidth (width env)"
    and a: "a < nat (nRows rb (prevPhase_of (period env) phase))"
    and b: "b < nat (nRows rb phase)"
    and inv: "compat_inv env rb q phase s e0 a b cs"
    and res: "testCompatible env rb q phase
                (firstRow rb (prevPhase_of (period env) phase) + int a)
                (firstRow rb phase + int b) s (cs, e) = Inr (cs', e')"
  shows "compat_inv env rb q phase s e0 a (Suc b) cs'"
proof -
  define prev where "prev = prevPhase_of (period env) phase"
  define c2 where "c2 = cs\<lparr>firstCompat := (firstCompat cs)
                             (phase := (if phase = 0 then 0
                                        else firstCompat cs prev
                                             + compatBlockLength cs prev * nRows rb prev)),
                          compatBlockLength := (compatBlockLength cs)
                             (phase := drop_bit 5 (nRows rb prev + 31))\<rparr>"
  define cs1 where "cs1 = (if b = 0 then c2 else cs)"
  have np: "0 < nat (nRows rb phase)" using b by simp
  have hdr2: "compat_hdr env rb phase c2"
    using prevPhase_neq [of phase "period env"]
    by (auto simp: compat_hdr_def c2_def Let_def prev_def)
  have c2_same: "c2 = cs" if "compat_hdr env rb phase cs"
    using that by (simp add: compat_hdr_def c2_def Let_def prev_def [symmetric] fun_upd_idem)
  have hdr1: "compat_hdr env rb phase cs1"
    using hdr2 inv np by (auto simp: cs1_def compat_inv_def)
  have same1: "cs1 = cs" if "a \<noteq> 0 \<or> b \<noteq> 0"
    using that inv np c2_same by (auto simp: cs1_def compat_inv_def)
  have store: "testCompatible_store env rb q phase (firstRow rb prev + int a)
                 (firstRow rb phase + int b) s (cs1, e) = (cs', e')"
    using res
    by (auto simp: testCompatible_def Let_def prev_def [symmetric] cs1_def c2_def
        split: if_splits)
  have bl1: "compatBlockLength cs1 phase = drop_bit 5 (nRows rb prev + 31)"
    using hdr1 by (simp add: compat_hdr_def Let_def prev_def)
  note eff = testCompatible_store_effect [OF W bl1 [unfolded prev_def] a store [unfolded prev_def],
      of e0]
  have fc': "firstCompat cs' = firstCompat cs1" and bl': "compatBlockLength cs' = compatBlockLength cs1"
    using eff by simp_all
  have hdr': "compat_hdr env rb phase cs'"
    using hdr1 by (auto simp: compat_hdr_def fc' bl' Let_def)
  have bits': "compat_bit cs' phase i j
              = ((i < a \<or> (i = a \<and> j < Suc b)) \<and> compat_cond env rb q phase s e0 i j)"
    if i: "i < nat (nRows rb prev)" and j: "j < nat (nRows rb phase)" and ok: "0 < a \<or> j < Suc b"
    for i j
  proof -
    have new: "compat_bit cs' phase i j =
             (if i = a \<and> j = b
              then ((a \<noteq> 0 \<and> compat_bit cs1 phase a b) \<or> compat_cond env rb q phase s e0 a b)
              else if j = b \<and> a = 0 then False
              else compat_bit cs1 phase i j)"
      using eff i by (simp add: prev_def)
    have old: "compat_bit cs phase i' j'
              = ((i' < a \<or> (i' = a \<and> j' < b)) \<and> compat_cond env rb q phase s e0 i' j')"
      if "i' < nat (nRows rb prev)" "j' < nat (nRows rb phase)" "0 < a \<or> j' < b" for i' j'
      using inv that unfolding compat_inv_def prev_def by blast
    show ?thesis
    proof (cases "i = a \<and> j = b")
      case True
      show ?thesis
      proof (cases "a = 0")
        case z: True
        with True new show ?thesis by simp
      next
        case nz: False
        then have "compat_bit cs1 phase a b = compat_bit cs phase a b" using same1 by simp
        also have "\<dots> = False" using old [of a b] a b nz by (simp add: prev_def)
        finally show ?thesis using True new by simp
      qed
    next
      case ne: False
      show ?thesis
      proof (cases "j = b \<and> a = 0")
        case True
        with ne new show ?thesis by auto
      next
        case False
        then have nz: "a \<noteq> 0 \<or> b \<noteq> 0" using ok by auto
        have ok': "0 < a \<or> j < b" using False ok by auto
        have "compat_bit cs' phase i j = compat_bit cs phase i j"
          using new ne False same1 [OF nz] by simp
        also have "\<dots> = ((i < a \<or> (i = a \<and> j < b)) \<and> compat_cond env rb q phase s e0 i j)"
          by (rule old [OF i j ok'])
        finally show ?thesis using ne by auto
      qed
    qed
  qed
  show ?thesis
    unfolding compat_inv_def using hdr' bits' by (simp add: prev_def)
qed


lemma testCompatible_js_inv:
  assumes W: "1 \<le> totalWidth (width env)"
    and a: "a < nat (nRows rb (prevPhase_of (period env) phase))"
    and b2: "b2 \<le> nat (nRows rb phase)" and bb: "b \<le> b2"
    and inv: "compat_inv env rb q phase s e0 a b cs"
    and res: "testCompatible_js env rb q phase s a [b..<b2] (cs, e) = Inr (cs', e')"
  shows "compat_inv env rb q phase s e0 a b2 cs'"
  using bb inv res
proof (induction "b2 - b" arbitrary: b cs e)
  case 0
  then show ?case by simp
next
  case (Suc d)
  then have lt: "b < b2" by simp
  then have l: "[b..<b2] = b # [Suc b..<b2]" by (simp add: upt_conv_Cons)
  from Suc.prems(3) obtain cs1 e1 where
    1: "testCompatible env rb q phase (firstRow rb (prevPhase_of (period env) phase) + int a)
          (firstRow rb phase + int b) s (cs, e) = Inr (cs1, e1)"
    and 2: "testCompatible_js env rb q phase s a [Suc b..<b2] (cs1, e1) = Inr (cs', e')"
    unfolding l by (auto split: sum.splits)
  have bn: "b < nat (nRows rb phase)" using lt b2 by simp
  have inv1: "compat_inv env rb q phase s e0 a (Suc b) cs1"
    by (rule testCompatible_step [OF W a bn Suc.prems(2) 1])
  have d: "d = b2 - Suc b" using Suc.hyps(2) by simp
  show ?case
    using Suc.hyps(1) [OF d _ inv1 2] lt by simp
qed

lemma compat_inv_next_row:
  "compat_inv env rb q phase s e0 a (nat (nRows rb phase)) cs
     = compat_inv env rb q phase s e0 (Suc a) 0 cs"
  unfolding compat_inv_def by (auto simp: less_Suc_eq)

lemma testCompatible_is_inv:
  assumes W: "1 \<le> totalWidth (width env)"
    and a2: "a2 \<le> nat (nRows rb (prevPhase_of (period env) phase))" and aa: "a \<le> a2"
    and inv: "compat_inv env rb q phase s e0 a 0 cs"
    and res: "testCompatible_is env rb q phase s [a..<a2] (cs, e) = Inr (cs', e')"
  shows "compat_inv env rb q phase s e0 a2 0 cs'"
  using aa inv res
proof (induction "a2 - a" arbitrary: a cs e)
  case 0
  then show ?case by simp
next
  case (Suc d)
  then have lt: "a < a2" by simp
  then have l: "[a..<a2] = a # [Suc a..<a2]" by (simp add: upt_conv_Cons)
  from Suc.prems(3) obtain cs1 e1 where
    1: "testCompatible_js env rb q phase s a [0..<nat (nRows rb phase)] (cs, e) = Inr (cs1, e1)"
    and 2: "testCompatible_is env rb q phase s [Suc a..<a2] (cs1, e1) = Inr (cs', e')"
    unfolding l by (auto split: sum.splits)
  have an: "a < nat (nRows rb (prevPhase_of (period env) phase))" using lt a2 by simp
  have "compat_inv env rb q phase s e0 a (nat (nRows rb phase)) cs1"
    by (rule testCompatible_js_inv [OF W an _ _ Suc.prems(2) 1]) simp_all
  then have inv1: "compat_inv env rb q phase s e0 (Suc a) 0 cs1"
    by (simp add: compat_inv_next_row)
  have d: "d = a2 - Suc a" using Suc.hyps(2) by simp
  show ?case
    using Suc.hyps(1) [OF d _ inv1 2] lt by simp
qed

lemma compat_inv_start: "compat_inv env rb q phase s e0 0 0 cs"
  by (simp add: compat_inv_def)

text \<open>
  Claim C4.  In the iteration of \<open>processGroup\<close> over the Cartesian product of the
  candidates of phase \<open>p - 1\<close> and phase \<open>p\<close>, after the call
  \<open>testCompatible(p, firstRow[p-1]+i, firstRow[p]+j, s)\<close> has run (no call aborted on a
  full compatibility store), \<open>compatible\<close> reads the bit of the pair as set if and only
  if the two rows agree under \<open>STATMASK\<close> and \<open>setupExtensions\<close> on them leaves one of the
  two low bits of \<open>extensions[totalWidth - 1]\<close> set.  The total width is at least 1, so
  that \<open>extensions[totalWidth - 1]\<close> is an element of the array.
\<close>

theorem C4_testCompatible:
  assumes W: "1 \<le> totalWidth (width env)"
    and i: "i < nat (nRows rb (prevPhase_of (period env) phase))"
    and j: "j < nat (nRows rb phase)"
    and outer: "testCompatible_is env rb q phase s [0..<i] ce0 = Inr ce1"
    and inner: "testCompatible_js env rb q phase s i [0..<Suc j] ce1 = Inr ce2"
  shows "(compatible (period env) rb (fst ce2) phase
            (firstRow rb (prevPhase_of (period env) phase) + int i) (firstRow rb phase + int j) \<noteq> 0)
         = compat_cond env rb q phase s extensions i j"
proof -
  obtain cs0 e0 where ce0: "ce0 = (cs0, e0)" by (cases ce0)
  obtain cs1 e1 where ce1: "ce1 = (cs1, e1)" by (cases ce1)
  obtain cs2 e2 where ce2: "ce2 = (cs2, e2)" by (cases ce2)
  have 1: "compat_inv env rb q phase s extensions i 0 cs1"
    using testCompatible_is_inv [OF W _ _ compat_inv_start outer [unfolded ce0 ce1]] i by simp
  have 2: "compat_inv env rb q phase s extensions i (Suc j) cs2"
    using testCompatible_js_inv [OF W i _ _ 1 inner [unfolded ce1 ce2]] j by simp
  have "compat_bit cs2 phase i j = compat_cond env rb q phase s extensions i j"
    using 2 i j unfolding compat_inv_def by simp
  then show ?thesis by (simp add: compatible_compat_bit ce2)
qed

text \<open>
  Period 1, one candidate row, a table that allows every extension: the first call
  sets bit 0 of word 0.
\<close>

definition C4_env :: search_env where
  "C4_env = \<lparr>period = 1, symmetry = none, extTab = (\<lambda>_. 3),
             width = \<lparr>rotorWidth = 1, leftStatorWidth = 0, rightStatorWidth = 0\<rparr>,
             rule = 4108, allow_row_sym = True, zeroLotLine = False\<rparr>"

definition C4_rows :: rowbuf where
  "C4_rows = \<lparr>rows = (\<lambda>_. 0), firstRow = (\<lambda>_. 0), nRows = (\<lambda>_. 1), rowIndices = (\<lambda>_. 0)\<rparr>"

definition C4_queue :: queue where
  "C4_queue = \<lparr>statespace = (\<lambda>_. 0), firstUnprocessedState = 0, firstFreeState = 2\<rparr>"

definition C4_start :: "compat \<times> (int \<Rightarrow> int)" where
  "C4_start = (\<lparr>compatBits = (\<lambda>_. 0), firstCompat = (\<lambda>_. 0), compatBlockLength = (\<lambda>_. 0)\<rparr>,
               (\<lambda>_. 0))"

definition C4_final :: "compat \<times> (int \<Rightarrow> int)" where
  "C4_final = (\<lparr>compatBits = (\<lambda>_. 0)(0 := 1), firstCompat = (\<lambda>_. 0),
                 compatBlockLength = (\<lambda>_. 0)(0 := 1)\<rparr>, (\<lambda>_. 0)(0 := 3))"

theorem C4_testCompatible_witness:
  "testCompatible_js C4_env C4_rows C4_queue 0 0 0 [0..<Suc 0] C4_start = Inr C4_final
   \<and> compatible 1 C4_rows (fst C4_final) 0 0 0 = 1
   \<and> compat_cond C4_env C4_rows C4_queue 0 0 (\<lambda>_. 0) 0 0"
proof -
  have W: "1 \<le> totalWidth (width C4_env)" by (simp add: C4_env_def totalWidth_def)
  have i: "0 < nat (nRows C4_rows (prevPhase_of (period C4_env) 0))"
    and j: "0 < nat (nRows C4_rows 0)" by (simp_all add: C4_rows_def)
  have outer: "testCompatible_is C4_env C4_rows C4_queue 0 0 [0..<0] C4_start = Inr C4_start"
    by simp
  have inner: "testCompatible_js C4_env C4_rows C4_queue 0 0 0 [0..<Suc 0] C4_start = Inr C4_final"
    by (simp add: testCompatible_def testCompatible_store_def C4_env_def C4_rows_def
        C4_queue_def C4_start_def C4_final_def prevPhase_of_def NCOMPAT_def Let_def
        setupExtensions_def maskedExtension_def totalWidth_def STATMASK_def rowOfState_def
        fun_upd_idem)
  have c: "compatible 1 C4_rows (fst C4_final) 0 0 0 = 1"
    by (simp add: compatible_def C4_final_def C4_rows_def prevPhase_of_def)
  from C4_testCompatible [OF W i j outer inner, of "\<lambda>_. 0"] c
  have "compat_cond C4_env C4_rows C4_queue 0 0 (\<lambda>_. 0) 0 0"
    by (simp add: C4_env_def C4_rows_def prevPhase_of_def)
  with inner c show ?thesis by simp
qed



section \<open>Reachability of the rows of phase 0\<close>

text \<open>
  \<^verbatim>\<open>#define REACHLENGTH ((nRows[0]+31)>>5)
  Row reachBits[NCOMPAT]; int firstReach[MAXPERIOD];\<close>
\<close>

record reach =
  reachBits :: "int \<Rightarrow> Row"
  firstReach :: "nat \<Rightarrow> int"

definition REACHLENGTH :: "rowbuf \<Rightarrow> int" where
  "REACHLENGTH rb = drop_bit 5 (nRows rb 0 + 31)"

text \<open>
  \<^verbatim>\<open>return reachBits[firstReach[phase] + (rowIndex*REACHLENGTH) + (firstRowIndex>>5)]
    & (((Row) 1) << (firstRowIndex & 037));\<close>
  The unsigned value is returned as a \<^verbatim>\<open>long\<close>.
\<close>

definition reachable :: "rowbuf \<Rightarrow> reach \<Rightarrow> nat \<Rightarrow> int \<Rightarrow> int \<Rightarrow> int" where
  "reachable rb r phase firstRowIndex rowIndex =
     uint (reachBits r (firstReach r phase + rowIndex * REACHLENGTH rb + drop_bit 5 firstRowIndex)
            AND push_bit (nat (firstRowIndex AND 31)) 1)"

text \<open>
  One round of the loop over the rows of the last phase:
  \<^verbatim>\<open>for (j = 0; j < REACHLENGTH; j++) reachBits[i*REACHLENGTH + j] = 0;
  for (j = 0; j < nRows[0]; j++)
    if (compatible(0, firstRow[period-1]+i, firstRow[0]+j))
      reachBits[i*REACHLENGTH + (j>>5)] |= (((Row)1) << (j & 037));\<close>
\<close>

definition reach_base_row :: "nat \<Rightarrow> rowbuf \<Rightarrow> compat \<Rightarrow> nat \<Rightarrow> (int \<Rightarrow> Row) \<Rightarrow> (int \<Rightarrow> Row)" where
  "reach_base_row P rb cs i bits0 =
     (let bits1 = fold (\<lambda>j bits. bits(int i * REACHLENGTH rb + int j := 0))
                    [0..<nat (REACHLENGTH rb)] bits0
      in fold (\<lambda>j bits.
                 if compatible P rb cs 0 (firstRow rb (P - 1) + int i) (firstRow rb 0 + int j) \<noteq> 0
                 then bits(int i * REACHLENGTH rb + drop_bit 5 (int j) :=
                             bits (int i * REACHLENGTH rb + drop_bit 5 (int j))
                               OR push_bit (nat (int j AND 31)) 1)
                 else bits)
           [0..<nat (nRows rb 0)] bits1)"

text \<open>
  One round of the loop over the rows of an earlier phase; \<open>fr\<close> is \<open>firstReach\<close>:
  \<^verbatim>\<open>int idx = firstReach[phase] + i*REACHLENGTH;
  for (j = 0; j < REACHLENGTH; j++) reachBits[idx+j] = 0;
  for (j = 0; j < nRows[phase+1]; j++)
    if (compatible(phase+1, firstRow[phase]+i, firstRow[phase+1]+j))
      for (k = 0; k < REACHLENGTH; k++)
        reachBits[idx+k] |= reachBits[firstReach[phase+1] + j*REACHLENGTH + k];\<close>
\<close>

definition reach_step_row ::
  "nat \<Rightarrow> rowbuf \<Rightarrow> compat \<Rightarrow> nat \<Rightarrow> (nat \<Rightarrow> int) \<Rightarrow> nat \<Rightarrow> (int \<Rightarrow> Row) \<Rightarrow> (int \<Rightarrow> Row)" where
  "reach_step_row P rb cs phase fr i bits0 =
     (let idx = fr phase + int i * REACHLENGTH rb;
          bits1 = fold (\<lambda>j bits. bits(idx + int j := 0)) [0..<nat (REACHLENGTH rb)] bits0
      in fold (\<lambda>j bits.
                 if compatible P rb cs (phase + 1) (firstRow rb phase + int i)
                      (firstRow rb (phase + 1) + int j) \<noteq> 0
                 then fold (\<lambda>k bits.
                              bits(idx + int k :=
                                     bits (idx + int k)
                                       OR bits (fr (phase + 1) + int j * REACHLENGTH rb + int k)))
                        [0..<nat (REACHLENGTH rb)] bits
                 else bits)
           [0..<nat (nRows rb (phase + 1))] bits1)"

text \<open>
  \<^verbatim>\<open>for (phase = period-2; phase >= 0; phase--) {
    firstReach[phase] = firstReach[phase+1] + nRows[phase+1]*REACHLENGTH;
    if (firstReach[phase] + nRows[phase]*REACHLENGTH >= NCOMPAT) { ...; failure(); }
    for (i = 0; i < nRows[phase]; i++) { ... }
  }\<close>
  The list holds the phases still to be visited, in the order of the loop.
\<close>

fun reach_phases :: "nat \<Rightarrow> rowbuf \<Rightarrow> compat \<Rightarrow> nat list \<Rightarrow> reach \<Rightarrow> exit_reason + reach" where
  "reach_phases P rb cs [] r = Inr r"
| "reach_phases P rb cs (phase # phases) r =
     (let fr = (firstReach r)
                 (phase := firstReach r (phase + 1) + nRows rb (phase + 1) * REACHLENGTH rb)
      in if fr phase + nRows rb phase * REACHLENGTH rb \<ge> NCOMPAT then Inl ReachExceeded
         else reach_phases P rb cs phases
                \<lparr>reachBits = fold (reach_step_row P rb cs phase fr) [0..<nat (nRows rb phase)]
                               (reachBits r),
                 firstReach = fr\<rparr>)"

text \<open>
  \<^verbatim>\<open>firstReach[period-1] = 0;
  for (i = 0; i < nRows[period-1]; i++) { ... }
  for (phase = period-2; phase >= 0; phase--) { ... }\<close>
\<close>

definition testReachable :: "nat \<Rightarrow> rowbuf \<Rightarrow> compat \<Rightarrow> reach \<Rightarrow> exit_reason + reach" where
  "testReachable P rb cs r =
     (let fr = (firstReach r)(P - 1 := 0);
          bits = fold (reach_base_row P rb cs) [0..<nat (nRows rb (P - 1))] (reachBits r)
      in reach_phases P rb cs (rev [0..<P - 1]) \<lparr>reachBits = bits, firstReach = fr\<rparr>)"

text \<open>
  A directed compatibility path from the \<open>j\<close>-th candidate of phase \<open>p\<close> through the
  candidates \<open>js\<close> of the phases \<open>p + 1, ..., P - 1\<close> to the \<open>k\<close>-th candidate of phase 0.
\<close>

fun chain_ok :: "nat \<Rightarrow> rowbuf \<Rightarrow> compat \<Rightarrow> nat \<Rightarrow> nat \<Rightarrow> nat list \<Rightarrow> nat \<Rightarrow> bool" where
  "chain_ok P rb cs p j [] k =
     (p = P - 1
      \<and> compatible P rb cs 0 (firstRow rb (P - 1) + int j) (firstRow rb 0 + int k) \<noteq> 0)"
| "chain_ok P rb cs p j (j' # js) k =
     (p < P - 1 \<and> j' < nat (nRows rb (p + 1))
      \<and> compatible P rb cs (p + 1) (firstRow rb p + int j) (firstRow rb (p + 1) + int j') \<noteq> 0
      \<and> chain_ok P rb cs (p + 1) j' js k)"


section \<open>Properties of the reachability store\<close>

text \<open>The bit of the \<open>k\<close>-th candidate of phase 0 in row \<open>j\<close> of the block at \<open>base\<close>.\<close>

definition reach_bit :: "rowbuf \<Rightarrow> (int \<Rightarrow> Row) \<Rightarrow> int \<Rightarrow> nat \<Rightarrow> nat \<Rightarrow> bool" where
  "reach_bit rb bits base j k =
     bit (bits (base + int j * REACHLENGTH rb + int (k div 32))) (k mod 32)"

lemma reachable_reach_bit:
  "(reachable rb r phase (int k) (int j) \<noteq> 0) = reach_bit rb (reachBits r) (firstReach r phase) j k"
  by (simp add: reachable_def reach_bit_def and_31_mod drop_bit_5_div row_bit_test_exp
      uint_0_iff)


lemma fold_set_bits:
  fixes bits :: "int \<Rightarrow> Row"
  assumes m: "m < 32"
  shows "bit (fold (\<lambda>j bits.
                 if C j
                 then bits(base + drop_bit 5 (int j) :=
                             bits (base + drop_bit 5 (int j)) OR push_bit (nat (int j AND 31)) 1)
                 else bits) [0..<n] bits x) m
         = (bit (bits x) m \<or> (\<exists>j<n. C j \<and> x = base + int (j div 32) \<and> m = j mod 32))"
proof (induction n)
  case 0
  then show ?case by simp
next
  case (Suc n)
  have lt: "n mod 32 < 32" by simp
  show ?case
    using Suc m by (auto simp: drop_bit_5_div and_31_mod row_bit_set_exp [OF lt m] less_Suc_eq)
qed

lemma fold_or_block:
  fixes bits :: "int \<Rightarrow> Row"
  assumes "src + int n \<le> idx"
  shows "fold (\<lambda>k bits. bits(idx + int k := bits (idx + int k) OR bits (src + int k))) [0..<n] bits x
         = (if idx \<le> x \<and> x < idx + int n then bits x OR bits (src + (x - idx)) else bits x)"
proof -
  define F where "F = (\<lambda>k (bits :: int \<Rightarrow> Row).
      bits(idx + int k := bits (idx + int k) OR bits (src + int k)))"
  have "fold F [0..<n] bits x
         = (if idx \<le> x \<and> x < idx + int n then bits x OR bits (src + (x - idx)) else bits x)"
    using assms
  proof (induction n arbitrary: x)
    case 0
    then show ?case by auto
  next
    case (Suc n)
    have le: "src + int n \<le> idx" using Suc.prems by simp
    note IH = Suc.IH [OF le]
    have step: "fold F [0..<Suc n] bits = F n (fold F [0..<n] bits)" by simp
    have s: "\<not> (idx \<le> src + int n)" "\<not> (idx + int n < idx + int n)" using Suc.prems by simp_all
    have "F n (fold F [0..<n] bits) x =
        (if x = idx + int n then fold F [0..<n] bits (idx + int n) OR fold F [0..<n] bits (src + int n)
         else fold F [0..<n] bits x)"
      by (simp add: F_def)
    also have "\<dots> = (if idx \<le> x \<and> x < idx + int (Suc n)
                     then bits x OR bits (src + (x - idx)) else bits x)"
      unfolding IH using s by auto
    finally show ?case unfolding step .
  qed
  then show ?thesis unfolding F_def .
qed

lemma reach_len_bound:
  assumes "k < nat (nRows rb 0)"
  shows "int (k div 32) < REACHLENGTH rb"
proof -
  have "nRows rb 0 = int (nat (nRows rb 0))" using assms by simp
  then show ?thesis
    using div32_less [OF assms] unfolding REACHLENGTH_def by simp
qed

lemma div_mod_32_eq: "(j div 32 = k div 32 \<and> j mod 32 = k mod 32) = (j = (k::nat))"
  by (metis div_mult_mod_eq)

lemma reach_base_row_effect:
  assumes RL: "0 \<le> REACHLENGTH rb"
  shows "\<not> (int i * REACHLENGTH rb \<le> x \<and> x < int i * REACHLENGTH rb + REACHLENGTH rb)
           \<Longrightarrow> reach_base_row P rb cs i bits x = bits x"
    and "k < nat (nRows rb 0) \<Longrightarrow>
           reach_bit rb (reach_base_row P rb cs i bits) 0 i k
           = (compatible P rb cs 0 (firstRow rb (P - 1) + int i) (firstRow rb 0 + int k) \<noteq> 0)"
proof -
  define RLn where "RLn = REACHLENGTH rb"
  define bits1 where "bits1 = fold (\<lambda>j bits. bits(int i * RLn + int j := 0)) [0..<nat RLn] bits"
  define C where "C = (\<lambda>j. compatible P rb cs 0 (firstRow rb (P - 1) + int i) (firstRow rb 0 + int j) \<noteq> 0)"
  have b1: "bits1 y = (if int i * RLn \<le> y \<and> y < int i * RLn + RLn then 0 else bits y)" for y
    using RL by (simp add: bits1_def fold_clear_block RLn_def)
  have res: "reach_base_row P rb cs i bits =
      fold (\<lambda>j bits. if C j
                 then bits(int i * RLn + drop_bit 5 (int j) :=
                             bits (int i * RLn + drop_bit 5 (int j)) OR push_bit (nat (int j AND 31)) 1)
                 else bits) [0..<nat (nRows rb 0)] bits1"
    unfolding reach_base_row_def Let_def RLn_def bits1_def C_def ..
  note fb = fold_set_bits [where C = C and base = "int i * RLn" and n = "nat (nRows rb 0)"
      and bits = bits1]
  {
    assume out: "\<not> (int i * REACHLENGTH rb \<le> x \<and> x < int i * REACHLENGTH rb + REACHLENGTH rb)"
    have "bit (reach_base_row P rb cs i bits x) m = bit (bits x) m" if m: "m < 32" for m
    proof -
      have "(\<exists>j<nat (nRows rb 0). C j \<and> x = int i * RLn + int (j div 32) \<and> m = j mod 32) = False"
      proof (intro iffI)
        assume "\<exists>j<nat (nRows rb 0). C j \<and> x = int i * RLn + int (j div 32) \<and> m = j mod 32"
        then obtain j where j: "j < nat (nRows rb 0)" "x = int i * RLn + int (j div 32)" by blast
        with reach_len_bound [OF j(1)] out show False by (simp add: RLn_def)
      qed simp
      then have "bit (reach_base_row P rb cs i bits x) m = bit (bits1 x) m"
        unfolding res fb [OF m] by blast
      then show ?thesis
        using out by (simp add: b1 RLn_def)
    qed
    then show "reach_base_row P rb cs i bits x = bits x"
      by (intro bit_word_eqI) (simp add: bit_imp_le_length)
  }
  {
    assume k: "k < nat (nRows rb 0)"
    have kk: "k mod 32 < 32" by simp
    have inblk: "int i * RLn \<le> int i * RLn + int (k div 32)
        \<and> int i * RLn + int (k div 32) < int i * RLn + RLn"
      using reach_len_bound [OF k] by (simp add: RLn_def)
    have "reach_bit rb (reach_base_row P rb cs i bits) 0 i k
        = (\<exists>j<nat (nRows rb 0). C j \<and> j div 32 = k div 32 \<and> k mod 32 = j mod 32)"
      unfolding reach_bit_def res RLn_def [symmetric]
      using fb [OF kk, of "int i * RLn + int (k div 32)"] inblk by (auto simp: b1)
    also have "\<dots> = C k"
      using k div_mod_32_eq by (metis)
    finally show "reach_bit rb (reach_base_row P rb cs i bits) 0 i k
           = (compatible P rb cs 0 (firstRow rb (P - 1) + int i) (firstRow rb 0 + int k) \<noteq> 0)"
      by (simp add: C_def)
  }
qed


lemma block_member_row:
  assumes "0 \<le> a" "a < bl"
  shows "(base + int j * bl \<le> base + int j' * bl + a \<and> base + int j' * bl + a < base + int j * bl + bl)
           = (j = j')"
  using block_member [OF assms, of base j j'] by (simp add: mult.commute)

lemma reach_base_rows:
  assumes RL: "0 \<le> REACHLENGTH rb" and i: "i < a" and k: "k < nat (nRows rb 0)"
  shows "reach_bit rb (fold (reach_base_row P rb cs) [0..<a] bits) 0 i k
         = (compatible P rb cs 0 (firstRow rb (P - 1) + int i) (firstRow rb 0 + int k) \<noteq> 0)"
  using i
proof (induction a)
  case 0
  then show ?case by simp
next
  case (Suc a)
  define K where "K = fold (reach_base_row P rb cs) [0..<a] bits"
  have step: "fold (reach_base_row P rb cs) [0..<Suc a] bits = reach_base_row P rb cs a K"
    by (simp add: K_def)
  show ?case
  proof (cases "i = a")
    case True
    then show ?thesis unfolding step by (simp add: reach_base_row_effect(2) [OF RL k])
  next
    case False
    then have ia: "i < a" using Suc.prems by simp
    have out: "\<not> (int a * REACHLENGTH rb \<le> 0 + int i * REACHLENGTH rb + int (k div 32)
        \<and> 0 + int i * REACHLENGTH rb + int (k div 32) < int a * REACHLENGTH rb + REACHLENGTH rb)"
      using block_member_row [of "int (k div 32)" "REACHLENGTH rb" 0 a i] reach_len_bound [OF k] False
      by simp
    have "reach_bit rb (reach_base_row P rb cs a K) 0 i k = reach_bit rb K 0 i k"
      unfolding reach_bit_def using reach_base_row_effect(1) [OF RL out] by simp
    then show ?thesis unfolding step using Suc.IH [OF ia] by (simp add: K_def)
  qed
qed

lemma reach_step_row_effect:
  assumes RL: "0 \<le> REACHLENGTH rb"
    and src: "\<forall>j<nat (nRows rb (phase + 1)).
                fr (phase + 1) + int j * REACHLENGTH rb + REACHLENGTH rb
                  \<le> fr phase + int i * REACHLENGTH rb"
  shows "\<not> (fr phase + int i * REACHLENGTH rb \<le> x
            \<and> x < fr phase + int i * REACHLENGTH rb + REACHLENGTH rb)
           \<Longrightarrow> reach_step_row P rb cs phase fr i bits x = bits x"
    and "0 \<le> t \<Longrightarrow> t < REACHLENGTH rb \<Longrightarrow>
           bit (reach_step_row P rb cs phase fr i bits (fr phase + int i * REACHLENGTH rb + t)) m
           = (\<exists>j<nat (nRows rb (phase + 1)).
                compatible P rb cs (phase + 1) (firstRow rb phase + int i)
                  (firstRow rb (phase + 1) + int j) \<noteq> 0
                \<and> bit (bits (fr (phase + 1) + int j * REACHLENGTH rb + t)) m)"
proof -
  define RLn where "RLn = REACHLENGTH rb"
  define idx where "idx = fr phase + int i * RLn"
  define bits1 where "bits1 = fold (\<lambda>j bits. bits(idx + int j := 0)) [0..<nat RLn] bits"
  define C where "C = (\<lambda>j. compatible P rb cs (phase + 1) (firstRow rb phase + int i)
                  (firstRow rb (phase + 1) + int j) \<noteq> 0)"
  define srcj where "srcj = (\<lambda>j. fr (phase + 1) + int j * RLn)"
  define F where "F = (\<lambda>j (bits :: int \<Rightarrow> Row).
                 if C j
                 then fold (\<lambda>k bits. bits(idx + int k := bits (idx + int k) OR bits (srcj j + int k)))
                        [0..<nat RLn] bits
                 else bits)"
  have RLn0: "0 \<le> RLn" using RL by (simp add: RLn_def)
  have b1: "bits1 y = (if idx \<le> y \<and> y < idx + RLn then 0 else bits y)" for y
    using RLn0 by (simp add: bits1_def fold_clear_block)
  have res: "reach_step_row P rb cs phase fr i bits = fold F [0..<nat (nRows rb (phase + 1))] bits1"
    unfolding reach_step_row_def Let_def RLn_def bits1_def C_def F_def idx_def srcj_def ..
  have sb: "srcj j + int (nat RLn) \<le> idx" if "j < nat (nRows rb (phase + 1))" for j
    using src that RLn0 by (simp add: srcj_def idx_def RLn_def)
  have Fj: "F j b y = (if C j \<and> idx \<le> y \<and> y < idx + RLn then b y OR b (srcj j + (y - idx)) else b y)"
    if "j < nat (nRows rb (phase + 1))" for j b y
    using fold_or_block [OF sb [OF that], of b y] RLn0 by (simp add: F_def)
  have G: "(\<not> (idx \<le> y \<and> y < idx + RLn) \<longrightarrow> fold F [0..<n] bits1 y = bits1 y)
         \<and> (idx \<le> y \<and> y < idx + RLn \<longrightarrow>
              bit (fold F [0..<n] bits1 y) m
                = (bit (bits1 y) m \<or> (\<exists>j<n. C j \<and> bit (bits1 (srcj j + (y - idx))) m)))"
    if "n \<le> nat (nRows rb (phase + 1))" for n y
    using that
  proof (induction n arbitrary: y)
    case 0
    then show ?case by simp
  next
    case (Suc n)
    have n: "n < nat (nRows rb (phase + 1))" and n': "n \<le> nat (nRows rb (phase + 1))"
      using Suc.prems by simp_all
    define Gn where "Gn = fold F [0..<n] bits1"
    have step: "fold F [0..<Suc n] bits1 = F n Gn" by (simp add: Gn_def)
    note IH = Suc.IH [OF n', folded Gn_def]
    show ?case
    proof (intro conjI impI)
      assume out: "\<not> (idx \<le> y \<and> y < idx + RLn)"
      then show "fold F [0..<Suc n] bits1 y = bits1 y"
        unfolding step Fj [OF n] using IH [of y] by auto
    next
      assume inb: "idx \<le> y \<and> y < idx + RLn"
      have so: "\<not> (idx \<le> srcj n + (y - idx) \<and> srcj n + (y - idx) < idx + RLn)"
        using sb [OF n] inb RLn0 by simp
      have rd: "Gn (srcj n + (y - idx)) = bits1 (srcj n + (y - idx))"
        using IH [of "srcj n + (y - idx)"] so by blast
      have "bit (F n Gn y) m = (bit (Gn y) m \<or> (C n \<and> bit (bits1 (srcj n + (y - idx))) m))"
        unfolding Fj [OF n] using inb rd by (simp add: bit_or_iff)
      also have "bit (Gn y) m = (bit (bits1 y) m \<or> (\<exists>j<n. C j \<and> bit (bits1 (srcj j + (y - idx))) m))"
        using IH [of y] inb by blast
      finally show "bit (fold F [0..<Suc n] bits1 y) m
                = (bit (bits1 y) m \<or> (\<exists>j<Suc n. C j \<and> bit (bits1 (srcj j + (y - idx))) m))"
        unfolding step by (auto simp: less_Suc_eq)
    qed
  qed
  {
    assume "\<not> (fr phase + int i * REACHLENGTH rb \<le> x
            \<and> x < fr phase + int i * REACHLENGTH rb + REACHLENGTH rb)"
    then have out: "\<not> (idx \<le> x \<and> x < idx + RLn)" by (simp add: idx_def RLn_def)
    show "reach_step_row P rb cs phase fr i bits x = bits x"
      unfolding res using G [OF order_refl, of x] out by (simp add: b1)
  }
  {
    assume t: "0 \<le> t" "t < REACHLENGTH rb"
    then have inb: "idx \<le> idx + t \<and> idx + t < idx + RLn" by (simp add: RLn_def)
    have so: "bits1 (srcj j + t) = bits (srcj j + t)" if "j < nat (nRows rb (phase + 1))" for j
      using sb [OF that] t RLn0 by (simp add: b1 RLn_def)
    have "bit (fold F [0..<nat (nRows rb (phase + 1))] bits1 (idx + t)) m
        = (\<exists>j<nat (nRows rb (phase + 1)). C j \<and> bit (bits1 (srcj j + t)) m)"
      using G [OF order_refl, of "idx + t"] inb by (simp add: b1)
    also have "\<dots> = (\<exists>j<nat (nRows rb (phase + 1)). C j \<and> bit (bits (srcj j + t)) m)"
      using so by auto
    finally show "bit (reach_step_row P rb cs phase fr i bits (fr phase + int i * REACHLENGTH rb + t)) m
           = (\<exists>j<nat (nRows rb (phase + 1)).
                compatible P rb cs (phase + 1) (firstRow rb phase + int i)
                  (firstRow rb (phase + 1) + int j) \<noteq> 0
                \<and> bit (bits (fr (phase + 1) + int j * REACHLENGTH rb + t)) m)"
      unfolding res by (simp add: idx_def RLn_def C_def srcj_def)
  }
qed


lemma reach_step_rows:
  assumes RL: "0 \<le> REACHLENGTH rb"
    and n1: "0 \<le> nRows rb (phase + 1)"
    and lay: "fr phase = fr (phase + 1) + nRows rb (phase + 1) * REACHLENGTH rb"
  shows "x < fr phase \<Longrightarrow> fold (reach_step_row P rb cs phase fr) [0..<a] bits x = bits x"
    and "i < a \<Longrightarrow> 0 \<le> t \<Longrightarrow> t < REACHLENGTH rb \<Longrightarrow>
           bit (fold (reach_step_row P rb cs phase fr) [0..<a] bits
                  (fr phase + int i * REACHLENGTH rb + t)) m
           = (\<exists>j<nat (nRows rb (phase + 1)).
                compatible P rb cs (phase + 1) (firstRow rb phase + int i)
                  (firstRow rb (phase + 1) + int j) \<noteq> 0
                \<and> bit (bits (fr (phase + 1) + int j * REACHLENGTH rb + t)) m)"
proof -
  define RLn where "RLn = REACHLENGTH rb"
  have RLn0: "0 \<le> RLn" using RL by (simp add: RLn_def)
  have src: "\<forall>j<nat (nRows rb (phase + 1)).
                fr (phase + 1) + int j * REACHLENGTH rb + REACHLENGTH rb
                  \<le> fr phase + int i' * REACHLENGTH rb" for i'
  proof (intro allI impI)
    fix j assume j: "j < nat (nRows rb (phase + 1))"
    then have "int j + 1 \<le> nRows rb (phase + 1)" by simp
    then have "(int j + 1) * RLn \<le> nRows rb (phase + 1) * RLn"
      using RLn0 by (rule mult_right_mono)
    moreover have "0 \<le> int i' * RLn" using RLn0 by simp
    ultimately show "fr (phase + 1) + int j * REACHLENGTH rb + REACHLENGTH rb
                  \<le> fr phase + int i' * REACHLENGTH rb"
      unfolding lay RLn_def [symmetric] by (simp add: algebra_simps)
  qed
  have low: "fold (reach_step_row P rb cs phase fr) [0..<a] bits x = bits x" if "x < fr phase" for a x
  proof (induction a)
    case 0
    then show ?case by simp
  next
    case (Suc a)
    have "0 \<le> int a * RLn" using RLn0 by simp
    then have out: "\<not> (fr phase + int a * REACHLENGTH rb \<le> x
            \<and> x < fr phase + int a * REACHLENGTH rb + REACHLENGTH rb)"
      using that by (simp add: RLn_def)
    show ?case
      using reach_step_row_effect(1) [OF RL src out] Suc.IH by simp
  qed
  show "x < fr phase \<Longrightarrow> fold (reach_step_row P rb cs phase fr) [0..<a] bits x = bits x"
    by (rule low)
  show "i < a \<Longrightarrow> 0 \<le> t \<Longrightarrow> t < REACHLENGTH rb \<Longrightarrow>
           bit (fold (reach_step_row P rb cs phase fr) [0..<a] bits
                  (fr phase + int i * REACHLENGTH rb + t)) m
           = (\<exists>j<nat (nRows rb (phase + 1)).
                compatible P rb cs (phase + 1) (firstRow rb phase + int i)
                  (firstRow rb (phase + 1) + int j) \<noteq> 0
                \<and> bit (bits (fr (phase + 1) + int j * REACHLENGTH rb + t)) m)"
  proof (induction a)
    case 0
    then show ?case by simp
  next
    case (Suc a)
    define H where "H = fold (reach_step_row P rb cs phase fr) [0..<a] bits"
    have step: "fold (reach_step_row P rb cs phase fr) [0..<Suc a] bits
        = reach_step_row P rb cs phase fr a H" by (simp add: H_def)
    show ?case
    proof (cases "i = a")
      case True
      have rd: "H (fr (phase + 1) + int j * REACHLENGTH rb + t)
          = bits (fr (phase + 1) + int j * REACHLENGTH rb + t)"
        if j: "j < nat (nRows rb (phase + 1))" for j
      proof -
        have "fr (phase + 1) + int j * REACHLENGTH rb + t < fr phase"
          using src [of 0, rule_format, OF j] Suc.prems(3) by simp
        then show ?thesis unfolding H_def by (rule low)
      qed
      show ?thesis
        unfolding step True
        using reach_step_row_effect(2) [OF RL src Suc.prems(2,3), of P cs a H m] rd by auto
    next
      case False
      then have ia: "i < a" using Suc.prems(1) by simp
      have out: "\<not> (fr phase + int a * REACHLENGTH rb \<le> fr phase + int i * REACHLENGTH rb + t
          \<and> fr phase + int i * REACHLENGTH rb + t
              < fr phase + int a * REACHLENGTH rb + REACHLENGTH rb)"
        using block_member_row [OF Suc.prems(2,3), of "fr phase" a i] False by simp
      show ?thesis
        unfolding step reach_step_row_effect(1) [OF RL src out]
        using Suc.IH [OF ia Suc.prems(2,3)] by (simp add: H_def)
    qed
  qed
qed

lemma chain_ok_last:
  "(\<exists>js. chain_ok P rb cs (P - 1) j js k)
     = (compatible P rb cs 0 (firstRow rb (P - 1) + int j) (firstRow rb 0 + int k) \<noteq> 0)"
proof
  assume "\<exists>js. chain_ok P rb cs (P - 1) j js k"
  then obtain js where "chain_ok P rb cs (P - 1) j js k" ..
  then show "compatible P rb cs 0 (firstRow rb (P - 1) + int j) (firstRow rb 0 + int k) \<noteq> 0"
    by (cases js) auto
next
  assume "compatible P rb cs 0 (firstRow rb (P - 1) + int j) (firstRow rb 0 + int k) \<noteq> 0"
  then have "chain_ok P rb cs (P - 1) j [] k" by simp
  then show "\<exists>js. chain_ok P rb cs (P - 1) j js k" ..
qed

lemma chain_ok_step:
  assumes "p < P - 1"
  shows "(\<exists>js. chain_ok P rb cs p j js k)
     = (\<exists>j'<nat (nRows rb (p + 1)).
          compatible P rb cs (p + 1) (firstRow rb p + int j) (firstRow rb (p + 1) + int j') \<noteq> 0
          \<and> (\<exists>js. chain_ok P rb cs (p + 1) j' js k))"
proof
  assume "\<exists>js. chain_ok P rb cs p j js k"
  then obtain js where c: "chain_ok P rb cs p j js k" ..
  show "\<exists>j'<nat (nRows rb (p + 1)).
          compatible P rb cs (p + 1) (firstRow rb p + int j) (firstRow rb (p + 1) + int j') \<noteq> 0
          \<and> (\<exists>js. chain_ok P rb cs (p + 1) j' js k)"
  proof (cases js)
    case Nil
    with c assms show ?thesis by simp
  next
    case (Cons j' js')
    with c show ?thesis by auto
  qed
next
  assume "\<exists>j'<nat (nRows rb (p + 1)).
          compatible P rb cs (p + 1) (firstRow rb p + int j) (firstRow rb (p + 1) + int j') \<noteq> 0
          \<and> (\<exists>js. chain_ok P rb cs (p + 1) j' js k)"
  then obtain j' js where "j' < nat (nRows rb (p + 1))"
    "compatible P rb cs (p + 1) (firstRow rb p + int j) (firstRow rb (p + 1) + int j') \<noteq> 0"
    "chain_ok P rb cs (p + 1) j' js k" by blast
  with assms have "chain_ok P rb cs p j (j' # js) k" by simp
  then show "\<exists>js. chain_ok P rb cs p j js k" ..
qed


text \<open>
  The state of the reachability store when the phases \<open>p, ..., P - 1\<close> are done: their
  blocks lie below the end of the block of phase \<open>p\<close>, and every bit is the existence of a
  chain.
\<close>

definition reach_inv :: "nat \<Rightarrow> rowbuf \<Rightarrow> compat \<Rightarrow> nat \<Rightarrow> reach \<Rightarrow> bool" where
  "reach_inv P rb cs p r =
     (\<forall>p'. p \<le> p' \<and> p' < P \<longrightarrow>
        firstReach r p' + nRows rb p' * REACHLENGTH rb
          \<le> firstReach r p + nRows rb p * REACHLENGTH rb
        \<and> (\<forall>i<nat (nRows rb p'). \<forall>k<nat (nRows rb 0).
              reach_bit rb (reachBits r) (firstReach r p') i k
                = (\<exists>js. chain_ok P rb cs p' i js k)))"

lemma reach_phases_correct:
  assumes RL: "0 \<le> REACHLENGTH rb" and nn: "\<forall>p<P. 0 \<le> nRows rb p"
    and p: "p < P"
    and inv: "reach_inv P rb cs p r"
    and res: "reach_phases P rb cs (rev [0..<p]) r = Inr r'"
  shows "reach_inv P rb cs 0 r'"
  using p inv res
proof (induction p arbitrary: r)
  case 0
  then show ?case by simp
next
  case (Suc p)
  define RLn where "RLn = REACHLENGTH rb"
  define fr where "fr = (firstReach r)(p := firstReach r (p + 1) + nRows rb (p + 1) * RLn)"
  define H where "H = fold (reach_step_row P rb cs p fr) [0..<nat (nRows rb p)] (reachBits r)"
  define r1 where "r1 = \<lparr>reachBits = H, firstReach = fr\<rparr>"
  have pP: "p < P" "p < P - 1" "Suc p < P" using Suc.prems(1) by simp_all
  have RLn0: "0 \<le> RLn" using RL by (simp add: RLn_def)
  have np: "0 \<le> nRows rb p" and np1: "0 \<le> nRows rb (p + 1)" using nn pP by simp_all
  have l: "rev [0..<Suc p] = p # rev [0..<p]" by simp
  have res1: "reach_phases P rb cs (rev [0..<p]) r1 = Inr r'"
    using Suc.prems(3) unfolding l
    by (simp add: Let_def r1_def H_def fr_def RLn_def split: if_splits)
  have lay: "fr p = fr (p + 1) + nRows rb (p + 1) * REACHLENGTH rb"
    by (simp add: fr_def RLn_def)
  have frp1: "fr p' = firstReach r p'" if "Suc p \<le> p'" for p'
    using that by (simp add: fr_def)
  note old = Suc.prems(2) [unfolded reach_inv_def, rule_format]
  have inv1: "reach_inv P rb cs p r1"
    unfolding reach_inv_def
  proof (intro allI impI conjI)
    fix p' assume p': "p \<le> p' \<and> p' < P"
    show "firstReach r1 p' + nRows rb p' * REACHLENGTH rb
          \<le> firstReach r1 p + nRows rb p * REACHLENGTH rb"
    proof (cases "p' = p")
      case True then show ?thesis by simp
    next
      case False
      then have sp: "Suc p \<le> p'" using p' by simp
      have "firstReach r p' + nRows rb p' * REACHLENGTH rb
          \<le> firstReach r (Suc p) + nRows rb (Suc p) * REACHLENGTH rb"
        using old [of p'] sp p' by simp
      also have "\<dots> = fr p" by (simp add: fr_def RLn_def)
      also have "\<dots> \<le> fr p + nRows rb p * REACHLENGTH rb"
        using np RL by simp
      finally show ?thesis by (simp add: r1_def frp1 [OF sp])
    qed
  next
    fix p' i k
    assume p': "p \<le> p' \<and> p' < P" and i: "i < nat (nRows rb p')" and k: "k < nat (nRows rb 0)"
    have t: "0 \<le> int (k div 32)" "int (k div 32) < REACHLENGTH rb"
      using reach_len_bound [OF k] by simp_all
    show "reach_bit rb (reachBits r1) (firstReach r1 p') i k = (\<exists>js. chain_ok P rb cs p' i js k)"
    proof (cases "p' = p")
      case True
      have "reach_bit rb H (fr p) i k
          = (\<exists>j<nat (nRows rb (p + 1)).
                compatible P rb cs (p + 1) (firstRow rb p + int i) (firstRow rb (p + 1) + int j) \<noteq> 0
                \<and> reach_bit rb (reachBits r) (fr (p + 1)) j k)"
        unfolding reach_bit_def H_def
        using reach_step_rows(2) [OF RL np1 lay _ t, of i "nat (nRows rb p)" P cs "reachBits r"
            "k mod 32"] i True by simp
      also have "\<dots> = (\<exists>j<nat (nRows rb (p + 1)).
                compatible P rb cs (p + 1) (firstRow rb p + int i) (firstRow rb (p + 1) + int j) \<noteq> 0
                \<and> (\<exists>js. chain_ok P rb cs (p + 1) j js k))"
        using old [of "Suc p"] pP k by (auto simp: frp1)
      also have "\<dots> = (\<exists>js. chain_ok P rb cs p i js k)"
        by (rule chain_ok_step [OF pP(2), symmetric])
      finally show ?thesis by (simp add: r1_def True)
    next
      case False
      then have sp: "Suc p \<le> p'" using p' by simp
      have "int i + 1 \<le> nRows rb p'" using i by simp
      then have "(int i + 1) * RLn \<le> nRows rb p' * RLn" using RLn0 by (rule mult_right_mono)
      moreover have "firstReach r p' + nRows rb p' * RLn \<le> fr p"
        using old [of p'] sp p' by (simp add: fr_def RLn_def)
      ultimately have "firstReach r p' + int i * RLn + int (k div 32) < fr p"
        using t by (simp add: algebra_simps RLn_def)
      then have "H (firstReach r p' + int i * REACHLENGTH rb + int (k div 32))
          = reachBits r (firstReach r p' + int i * REACHLENGTH rb + int (k div 32))"
        unfolding H_def RLn_def by (rule reach_step_rows(1) [OF RL np1 lay])
      then have "reach_bit rb H (fr p') i k = reach_bit rb (reachBits r) (firstReach r p') i k"
        by (simp add: reach_bit_def frp1 [OF sp])
      then show ?thesis using old [of p'] sp p' i k by (simp add: r1_def)
    qed
  qed
  show ?case by (rule Suc.IH [OF pP(1) inv1 res1])
qed

text \<open>
  Claim C3.  After \<open>testReachable()\<close> has run (it aborts when a block does not fit),
  for every phase \<open>p\<close>, every candidate \<open>j\<close> of phase \<open>p\<close> and every candidate \<open>k\<close> of phase
  0, \<open>reachable(p, k, j)\<close> is nonzero if and only if there are candidates
  \<open>j\<^sub>p\<^sub>+\<^sub>1, ..., j\<^sub>P\<^sub>-\<^sub>1\<close> with \<open>compatible\<close> holding along the chain and into row \<open>k\<close> of
  phase 0.  The row counts are not negative, and the block of the last phase, for
  which the function has no check, fits the array.
\<close>

theorem C3_testReachable:
  assumes P: "1 \<le> P" and nn: "\<forall>p<P. 0 \<le> nRows rb p"
    and fit: "nRows rb (P - 1) * REACHLENGTH rb \<le> NCOMPAT"
    and res: "testReachable P rb cs r = Inr r'"
    and p: "p < P" and j: "j < nat (nRows rb p)" and k: "k < nat (nRows rb 0)"
  shows "(reachable rb r' p (int k) (int j) \<noteq> 0) = (\<exists>js. chain_ok P rb cs p j js k)"
proof -
  define K where "K = fold (reach_base_row P rb cs) [0..<nat (nRows rb (P - 1))] (reachBits r)"
  define r0 where "r0 = \<lparr>reachBits = K, firstReach = (firstReach r)(P - 1 := 0)\<rparr>"
  have "0 \<le> nRows rb 0" using nn P by simp
  then have RL: "0 \<le> REACHLENGTH rb" by (simp add: REACHLENGTH_def)
  have res0: "reach_phases P rb cs (rev [0..<P - 1]) r0 = Inr r'"
    using res by (simp add: testReachable_def Let_def r0_def K_def)
  have inv0: "reach_inv P rb cs (P - 1) r0"
    unfolding reach_inv_def
  proof (intro allI impI conjI)
    fix p' assume "P - 1 \<le> p' \<and> p' < P"
    then have e: "p' = P - 1" using P by linarith
    show "firstReach r0 p' + nRows rb p' * REACHLENGTH rb
        \<le> firstReach r0 (P - 1) + nRows rb (P - 1) * REACHLENGTH rb"
      by (simp add: e)
    fix i k assume "i < nat (nRows rb p')" "k < nat (nRows rb 0)"
    then show "reach_bit rb (reachBits r0) (firstReach r0 p') i k = (\<exists>js. chain_ok P rb cs p' i js k)"
      using reach_base_rows [OF RL, of i "nat (nRows rb (P - 1))" k P cs "reachBits r"]
        chain_ok_last [of P rb cs i k]
      by (simp add: e r0_def K_def)
  qed
  have "reach_inv P rb cs 0 r'"
    using reach_phases_correct [OF RL nn _ inv0 res0] P by simp
  then have "reach_bit rb (reachBits r') (firstReach r' p) j k = (\<exists>js. chain_ok P rb cs p j js k)"
    using p j k unfolding reach_inv_def by simp
  then show ?thesis by (simp add: reachable_reach_bit)
qed

text \<open>
  Two phases with one candidate each, every pair compatible: the bit of phase 0 is
  set, through the chain of the one candidate of phase 1.
\<close>

definition C3_rows :: rowbuf where
  "C3_rows = \<lparr>rows = (\<lambda>_. 0), firstRow = (\<lambda>_. 0)(1 := 1), nRows = (\<lambda>_. 1),
              rowIndices = (\<lambda>_. 0)\<rparr>"

definition C3_compat :: compat where
  "C3_compat = \<lparr>compatBits = (\<lambda>_. 1), firstCompat = (\<lambda>_. 0), compatBlockLength = (\<lambda>_. 1)\<rparr>"

definition C3_start :: reach where
  "C3_start = \<lparr>reachBits = (\<lambda>_. 0), firstReach = (\<lambda>_. 0)\<rparr>"

definition C3_final :: reach where
  "C3_final = \<lparr>reachBits = (\<lambda>_. 0)(0 := 1, 1 := 1), firstReach = (\<lambda>_. 0)(1 := 0, 0 := 1)\<rparr>"

theorem C3_testReachable_witness:
  "testReachable 2 C3_rows C3_compat C3_start = Inr C3_final
   \<and> reachable C3_rows C3_final 0 0 0 = 1
   \<and> (\<exists>js. chain_ok 2 C3_rows C3_compat 0 0 js 0)"
proof -
  have nn: "\<forall>p<2. 0 \<le> nRows C3_rows p" by (simp add: C3_rows_def)
  have RLv: "REACHLENGTH C3_rows = 1" by (simp add: REACHLENGTH_def C3_rows_def)
  have nr: "nRows C3_rows ph = 1" for ph by (simp add: C3_rows_def)
  have fit: "nRows C3_rows (2 - 1) * REACHLENGTH C3_rows \<le> NCOMPAT"
    unfolding nr RLv by (simp add: NCOMPAT_def)
  have c0: "compatible 2 C3_rows C3_compat 0 (firstRow C3_rows (Suc 0)) b = 1"
    and c1: "compatible 2 C3_rows C3_compat (Suc 0) (firstRow C3_rows 0) b = 1" for b
    by (simp_all add: compatible_def C3_compat_def prevPhase_of_def)
  have base: "reach_base_row 2 C3_rows C3_compat 0 (\<lambda>_. 0) = (\<lambda>_. 0)(0 := 1)"
    unfolding reach_base_row_def Let_def nr RLv by (simp add: c0 fun_eq_iff)
  have step: "reach_step_row 2 C3_rows C3_compat 0 ((\<lambda>_. 0)(Suc 0 := 0, 0 := 1)) 0 ((\<lambda>_. 0)(0 := 1))
      = (\<lambda>_. 0)(0 := 1, 1 := 1)"
    unfolding reach_step_row_def Let_def nr RLv by (simp add: c1 fun_eq_iff)
  have l: "rev [0..<2 - 1] = [0::nat]" by simp
  have res: "testReachable 2 C3_rows C3_compat C3_start = Inr C3_final"
    unfolding testReachable_def Let_def l nr reach_phases.simps RLv
    by (simp add: C3_start_def C3_final_def base step NCOMPAT_def)
  have v: "reachable C3_rows C3_final 0 0 0 = 1"
    by (simp add: reachable_def C3_final_def RLv)
  have "(reachable C3_rows C3_final 0 (int 0) (int 0) \<noteq> 0) = (\<exists>js. chain_ok 2 C3_rows C3_compat 0 0 js 0)"
    by (rule C3_testReachable [OF _ nn fit res]) (simp_all add: C3_rows_def)
  with v res show ?thesis by simp
qed


section \<open>Tables for the detection of a closing stator\<close>

text \<open>
  \<open>initTermTabs()\<close> fills its tables from the rule alone, so each table is a function
  of the rule \<open>r\<close> and of its index.  \<open>bitn x n\<close> is \<^verbatim>\<open>(x>>n)&1\<close>, and \<open>rule_has r n\<close> is
  \<^verbatim>\<open>rule & (1<<n)\<close>.
\<close>

definition bitn :: "int \<Rightarrow> nat \<Rightarrow> int" where
  "bitn x n = drop_bit n x AND 1"

definition rule_has :: "int \<Rightarrow> int \<Rightarrow> bool" where
  "rule_has r n = (r AND push_bit (nat n) 1 \<noteq> 0)"

text \<open>
  \<^verbatim>\<open>j = (i&1) + ((i>>1)&1) + ((i>>2) & 1); count[i] = j << 17;\<close>
  \<^verbatim>\<open>bitCount[i] = (i&1) + ((i>>1)&1) + ((i>>2) & 1) + ((i>>3)&1) + ((i>>4) & 1);\<close>
\<close>

definition count_tab :: "int \<Rightarrow> Row" where
  "count_tab i = push_bit 17 (word_of_int (bitn i 0 + bitn i 1 + bitn i 2))"

definition bitCount :: "int \<Rightarrow> int" where
  "bitCount i = bitn i 0 + bitn i 1 + bitn i 2 + bitn i 3 + bitn i 4"

text \<open>
  \<^verbatim>\<open>#define tcomp3(i,j,k) tcompat3[(((i)&7)<<6)|(((j)&7)<<3)|((k)&7)]
  count = 9 - 9*((j>>1)&1);
  count += (i&1) + ((i>>1)&1) + ((i>>2)&1);
  count += (k&1) + ((k>>1)&1) + ((k>>2)&1);
  count += (j&1) + ((j>>2)&1);
  tcomp3(i,j,k) = 0;
  if ((rule&(1<<count))? j&2 : !(j&2)) tcomp3(i,j,k)=1;\<close>
\<close>

definition tcomp3 :: "int \<Rightarrow> int \<Rightarrow> int \<Rightarrow> int \<Rightarrow> bool" where
  "tcomp3 r i0 j0 k0 =
     (let i = i0 AND 7; j = j0 AND 7; k = k0 AND 7;
          count = 9 - 9 * bitn j 1
                  + (bitn i 0 + bitn i 1 + bitn i 2)
                  + (bitn k 0 + bitn k 1 + bitn k 2)
                  + (bitn j 0 + bitn j 2)
      in if rule_has r count then j AND 2 \<noteq> 0 else \<not> (j AND 2 \<noteq> 0))"

text \<open>
  \<^verbatim>\<open>tcompatible(i,j,k) =
    ( tcomp3(i,j,k) && tcomp3(i>>1,j>>1,k>>1) && tcomp3(i>>2,j>>2,k>>2) &&
      tcomp3(i>>3,j>>3,k>>3) && tcomp3(i>>4,j>>4,k>>4) );\<close>
\<close>

definition tcompatible :: "int \<Rightarrow> int \<Rightarrow> int \<Rightarrow> int \<Rightarrow> bool" where
  "tcompatible r i j k =
     (tcomp3 r i j k \<and> tcomp3 r (drop_bit 1 i) (drop_bit 1 j) (drop_bit 1 k)
      \<and> tcomp3 r (drop_bit 2 i) (drop_bit 2 j) (drop_bit 2 k)
      \<and> tcomp3 r (drop_bit 3 i) (drop_bit 3 j) (drop_bit 3 k)
      \<and> tcomp3 r (drop_bit 4 i) (drop_bit 4 j) (drop_bit 4 k))"

text \<open>
  \<^verbatim>\<open>stabtab[i] = 0;
  j = 9 - 9*((i>>5)&1);
  j += ((i>>11)&1) + ((i>>9)&1) + ((i>>7)&1);
  j += ((i>>6)&1) + ((i>>4)&1);
  j += ((i>>3)&1) + ((i>>2)&1) + ((i>>1)&1);
  if (rule & (1<<j)? i&1 : !(i&1)) {
    j = 9 - 9*((i>>9)&1);
    j += ((i>>12)&1) + ((i>>11)&1) + ((i>>10)&1) + ((i>>8)&1);
    j += ((i>>7)&1) + ((i>>6)&1) + ((i>>5)&1) + ((i>>4)&1);
    if (rule & (1<<j)? ((i>>9)&1) : !((i>>9)&1)) stabtab[i] = 1;
  }\<close>
\<close>

definition stabtab :: "int \<Rightarrow> int \<Rightarrow> bool" where
  "stabtab r i =
     (let j = 9 - 9 * bitn i 5
              + (bitn i 11 + bitn i 9 + bitn i 7)
              + (bitn i 6 + bitn i 4)
              + (bitn i 3 + bitn i 2 + bitn i 1)
      in if (if rule_has r j then i AND 1 \<noteq> 0 else \<not> (i AND 1 \<noteq> 0))
         then (let j2 = 9 - 9 * bitn i 9
                        + (bitn i 12 + bitn i 11 + bitn i 10 + bitn i 8)
                        + (bitn i 7 + bitn i 6 + bitn i 5 + bitn i 4)
               in if rule_has r j2 then bitn i 9 \<noteq> 0 else \<not> (bitn i 9 \<noteq> 0))
         else False)"

text \<open>
  \<^verbatim>\<open>revTerm[i] = 0;
  for (j = 0; j < 16; j++) {
    int k = ((j&5)<<1) | ((j&10)>>1);
    if (i & (1<<j)) revTerm[i] |= (1<<k);
  }\<close>
\<close>

definition revTerm :: "int \<Rightarrow> int" where
  "revTerm i =
     fold (\<lambda>j v. if i AND push_bit j 1 \<noteq> 0
                  then v OR push_bit (nat (push_bit 1 (int j AND 5) OR drop_bit 1 (int j AND 10))) 1
                  else v) [0..<16] 0"

text \<open>
  The entry \<^verbatim>\<open>nti[(j<<6)|i]\<close> of the local table:
  \<^verbatim>\<open>int succ = i&1;
  int count = (i>>1)&3;
  nti[(j<<6)|i] = 0;
  count += ((i>>3)&1) + ((i>>5)&1);
  count += (j&1) + ((j>>1)&1);
  count += 9 - 9*((i>>4)&1);
  succ2 = (j&1);
  count2 = 9 - 9*succ2 + ((j>>1)&1) + ((j>>2)&1) + ((j>>3)&1);
  count2 += ((i>>3)&1) + ((i>>4)&1) + ((i>>5)&1);
  for (inner = 0; inner < 2; inner++) {
    if ((rule & (1<<(count+inner)))? succ : !succ) for (outer = 0; outer < 2; outer++) {
      if ((rule & (1<<(count2+inner+outer)))? succ2: !succ2)
        nti[(j<<6)|i] |= 1 << (((j&5)<<1) | (outer<<2) | inner);
    }
  }\<close>
\<close>

definition nti :: "int \<Rightarrow> int \<Rightarrow> int \<Rightarrow> int" where
  "nti r i j =
     (let succ = i AND 1;
          count = (drop_bit 1 i AND 3) + (bitn i 3 + bitn i 5) + (bitn j 0 + bitn j 1)
                  + (9 - 9 * bitn i 4);
          succ2 = j AND 1;
          count2 = 9 - 9 * succ2 + bitn j 1 + bitn j 2 + bitn j 3
                   + (bitn i 3 + bitn i 4 + bitn i 5)
      in fold (\<lambda>inner v.
                 if (if rule_has r (count + int inner) then succ \<noteq> 0 else \<not> (succ \<noteq> 0))
                 then fold (\<lambda>outer v.
                              if (if rule_has r (count2 + int inner + int outer)
                                  then succ2 \<noteq> 0 else \<not> (succ2 \<noteq> 0))
                              then v OR push_bit (nat (push_bit 1 (j AND 5) OR push_bit 2 (int outer)
                                                        OR int inner)) 1
                              else v) [0..<2] v
                 else v) [0..<2] 0)"

text \<open>
  \<^verbatim>\<open>nxTerm[i] = 0;
  for (j = 0; j < 16; j++) if (i & (1<<j)) nxTerm[i] |= nti[(i>>16)|(j<<6)];\<close>
\<close>

definition nxTerm :: "int \<Rightarrow> int \<Rightarrow> int" where
  "nxTerm r i =
     fold (\<lambda>j v. if i AND push_bit j 1 \<noteq> 0 then v OR nti r (drop_bit 16 i) (int j) else v)
       [0..<16] 0"

text \<open>
  The end of \<open>initTermTabs()\<close>, which returns the pair
  \<open>(initialTermState, addlStatorCols)\<close>.  The loop ends only when the sequence of
  states reaches a fixed point, so it is a partial function.
  \<^verbatim>\<open>initialTermState = 1; addlStatorCols = 0;
  if (!zeroLotLine) for (;;) {
    unsigned short term = nxTerm[initialTermState];
    if (term == initialTermState) break;
    initialTermState = term; addlStatorCols++;
  }\<close>
\<close>

partial_function (option) initialTerm_loop :: "int \<Rightarrow> int \<Rightarrow> int \<Rightarrow> (int \<times> int) option" where
  "initialTerm_loop r initialTermState addlStatorCols =
     (let term = nxTerm r initialTermState
      in if term = initialTermState then Some (initialTermState, addlStatorCols)
         else initialTerm_loop r term (addlStatorCols + 1))"

declare initialTerm_loop.simps [code]

definition initTermTabs :: "int \<Rightarrow> bool \<Rightarrow> (int \<times> int) option" where
  "initTermTabs r zll = (if \<not> zll then initialTerm_loop r 1 0 else Some (1, 0))"


section \<open>The quick test: \<open>terminal()\<close>\<close>

text \<open>
  \<^verbatim>\<open>#define ODDEXT(r) ((r<<1)|((r&2)>>1))
  #define EVEXT(r) ((r<<1)|(r&1))
  #define NEXTTERM(t,r,pr,sr,i) NXTERM(t,((r)>>i)&7,count[((pr)>>i)&7],((sr)>>(i+1))&1)
  #define NXTERM(t,r,pr,sr) nxTerm[(t) | ((r)<<19) | (pr) | ((sr) << 16)]\<close>
\<close>

definition NEXTTERM :: "int \<Rightarrow> int \<Rightarrow> Row \<Rightarrow> Row \<Rightarrow> Row \<Rightarrow> nat \<Rightarrow> int" where
  "NEXTTERM rl t r pr sr i =
     nxTerm rl (uint (word_of_int t OR push_bit 19 (drop_bit i r AND 7)
                       OR count_tab (uint (drop_bit i pr AND 7))
                       OR push_bit 16 (drop_bit (i + 1) sr AND 1)))"

definition ODDEXT :: "Row \<Rightarrow> Row" where
  "ODDEXT r = push_bit 1 r OR drop_bit 1 (r AND 2)"

definition EVEXT :: "Row \<Rightarrow> Row" where
  "EVEXT r = push_bit 1 r OR (r AND 1)"

text \<open>
  The loop over the columns; \<open>None\<close> is the \<^verbatim>\<open>return 0\<close> inside it.
  \<^verbatim>\<open>for (i = totalWidth-1; i >= 0; i--) {
    nextTerm = (unsigned short) -1;
    if (term == 0) return 0;
    for (phase = 0; phase < period; phase++)
      nextTerm &= NEXTTERM(term,rowOfState(s, phase),rowOfState(ps, phase),
                           rowOfState(s, (phase+1)%period),i);
    term = nextTerm;
  }\<close>
\<close>

fun terminal_cols :: "search_env \<Rightarrow> queue \<Rightarrow> int \<Rightarrow> int \<Rightarrow> nat list \<Rightarrow> int \<Rightarrow> int option" where
  "terminal_cols env q s ps [] term = Some term"
| "terminal_cols env q s ps (i # is) term =
     (if term = 0 then None
      else terminal_cols env q s ps is
             (fold (\<lambda>phase nextTerm.
                      nextTerm AND NEXTTERM (rule env) term (rowOfState q s phase)
                                   (rowOfState q ps phase)
                                   (rowOfState q s ((phase + 1) mod period env)) i)
                [0..<period env] 65535))"

text \<open>
  The \<^verbatim>\<open>switch (symmetry)\<close> after the loop:
  \<^verbatim>\<open>case odd:
    for (phase ...) nextTerm &= NEXTTERM(term,ODDEXT(rowOfState(s, phase)),
        ODDEXT(rowOfState(ps, phase)), rowOfState(s, (phase+1)%period)<<1,0);
    if (revTerm[nextTerm] & term) return 1; return 0;
  case even:
    for (phase ...) nextTerm &= NEXTTERM(term,EVEXT(rowOfState(s, phase)),
        EVEXT(rowOfState(ps, phase)), rowOfState(s, (phase+1)%period)<<1,0);
    if (revTerm[nextTerm] & nextTerm) return 1; return 0;
  case none:
    for (phase ...) nextTerm &= NEXTTERM(term,rowOfState(s, phase)<<1,
        rowOfState(ps, phase)<<1, rowOfState(s, (phase+1)%period)<<1,0);
    term = nextTerm; nextTerm = (unsigned short) -1;
    for (phase ...) nextTerm &= NEXTTERM(term,rowOfState(s, phase)<<2,
        rowOfState(ps, phase)<<2, rowOfState(s, (phase+1)%period)<<2,0);
    if (revTerm[nextTerm] & initialTermState) return 1; return 0;\<close>
\<close>

definition terminal_end :: "search_env \<Rightarrow> int \<Rightarrow> queue \<Rightarrow> int \<Rightarrow> int \<Rightarrow> int \<Rightarrow> int" where
  "terminal_end env initialTermState q s ps term =
     (case symmetry env of
        odd \<Rightarrow>
          (let nextTerm = fold (\<lambda>phase nextTerm.
                   nextTerm AND NEXTTERM (rule env) term (ODDEXT (rowOfState q s phase))
                                (ODDEXT (rowOfState q ps phase))
                                (push_bit 1 (rowOfState q s ((phase + 1) mod period env))) 0)
                 [0..<period env] 65535
           in if revTerm nextTerm AND term \<noteq> 0 then 1 else 0)
      | even \<Rightarrow>
          (let nextTerm = fold (\<lambda>phase nextTerm.
                   nextTerm AND NEXTTERM (rule env) term (EVEXT (rowOfState q s phase))
                                (EVEXT (rowOfState q ps phase))
                                (push_bit 1 (rowOfState q s ((phase + 1) mod period env))) 0)
                 [0..<period env] 65535
           in if revTerm nextTerm AND nextTerm \<noteq> 0 then 1 else 0)
      | none \<Rightarrow>
          (let term1 = fold (\<lambda>phase nextTerm.
                   nextTerm AND NEXTTERM (rule env) term (push_bit 1 (rowOfState q s phase))
                                (push_bit 1 (rowOfState q ps phase))
                                (push_bit 1 (rowOfState q s ((phase + 1) mod period env))) 0)
                 [0..<period env] 65535;
               nextTerm = fold (\<lambda>phase nextTerm.
                   nextTerm AND NEXTTERM (rule env) term1 (push_bit 2 (rowOfState q s phase))
                                (push_bit 2 (rowOfState q ps phase))
                                (push_bit 2 (rowOfState q s ((phase + 1) mod period env))) 0)
                 [0..<period env] 65535
           in if revTerm nextTerm AND initialTermState \<noteq> 0 then 1 else 0))"

text \<open>
  \<open>terminal(s)\<close> returns its result together with the globals it sets,
  \<open>row_symmetry\<close> and \<open>row_sym_phase_offset\<close>; the last argument is the value of
  \<open>row_sym_phase_offset\<close> at entry.
  \<^verbatim>\<open>row_symmetry = none;
  if (ps == s) return 0;
  if (allow_row_sym) {
    State pps = parentState(ps);
    row_sym_phase_offset = 0;
    for (phase ...) if (rowOfState(s, phase) != rowOfState(ps, phase)) break;
    if (phase == period) { row_symmetry = even; return 1; }
    for (phase ...) if (rowOfState(s, phase) != rowOfState(pps, phase)) break;
    if (phase == period) { row_symmetry = odd; return 1; }
    if ((period & 1) == 0) {
      row_sym_phase_offset = period>>1;
      for (phase ...)
        if (rowOfState(s, phase) != rowOfState(ps, (phase + row_sym_phase_offset) % period)) break;
      if (phase == period) { row_symmetry = even; return 1; }
      for (phase ...)
        if (rowOfState(s, phase) != rowOfState(pps, (phase + row_sym_phase_offset) % period)) break;
      if (phase == period) { row_symmetry = odd; return 1; }
    }
  }\<close>
\<close>

definition terminal ::
  "search_env \<Rightarrow> int \<Rightarrow> queue \<Rightarrow> int \<Rightarrow> int \<Rightarrow> int \<times> sym_type \<times> int" where
  "terminal env initialTermState q s row_sym_phase_offset =
     (let ps = parentState q s; P = period env
      in if ps = s then (0, none, row_sym_phase_offset)
         else
           (let pps = parentState q ps;
                stator = (\<lambda>off.
                   case terminal_cols env q s ps (rev [0..<totalWidth (width env)])
                          initialTermState of
                     None \<Rightarrow> (0, none, off)
                   | Some term \<Rightarrow> (terminal_end env initialTermState q s ps term, none, off))
            in if allow_row_sym env
               then
                 (if (\<forall>phase \<in> set [0..<P]. rowOfState q s phase = rowOfState q ps phase)
                  then (1, even, 0)
                  else if (\<forall>phase \<in> set [0..<P]. rowOfState q s phase = rowOfState q pps phase)
                  then (1, odd, 0)
                  else if int P AND 1 = 0
                  then
                    (let off = drop_bit 1 (int P)
                     in if (\<forall>phase \<in> set [0..<P].
                              rowOfState q s phase
                                = rowOfState q ps (nat ((int phase + off) mod int P)))
                        then (1, even, off)
                        else if (\<forall>phase \<in> set [0..<P].
                              rowOfState q s phase
                                = rowOfState q pps (nat ((int phase + off) mod int P)))
                        then (1, odd, off)
                        else stator off)
                  else stator 0)
               else stator row_sym_phase_offset))"


section \<open>The search for the stator: \<open>terminate()\<close>\<close>

text \<open>
  \<^verbatim>\<open>int ijk = ((i&3)<<11) | ((j&3)<<9) | ((k&3)<<7);
  for (phase = 0; phase < period; phase++) {
    Row r = rowOfState(s, phase);
    Row pr = rowOfState(parentState(s), phase);
    Row sr = rowOfState(s, (phase+1)%period);
    if (col >= 0) { r >>= col; pr >>= col; sr >>= col; }
    else switch (symmetry) {
      case odd: r = (r<<1)|((r>>1)&1); ... break;
      case even: r = (r<<1)|(r&1); ... break;
      case none: r <<= -col; ... break;
    }
    if (!stabtab[ijk | ((r&7)<<4) | ((pr&7)<<1) | ((sr>>1)&1)]) return 0;
  }
  return 1;\<close>
\<close>

fun stabilizes_loop :: "search_env \<Rightarrow> queue \<Rightarrow> int \<Rightarrow> int \<Rightarrow> int \<Rightarrow> nat list \<Rightarrow> int" where
  "stabilizes_loop env q ijk s col [] = 1"
| "stabilizes_loop env q ijk s col (phase # phases) =
     (let r = rowOfState q s phase;
          pr = rowOfState q (parentState q s) phase;
          sr = rowOfState q s ((phase + 1) mod period env);
          sh = (\<lambda>x :: Row.
                  if col \<ge> 0 then drop_bit (nat col) x
                  else (case symmetry env of
                          odd \<Rightarrow> push_bit 1 x OR (drop_bit 1 x AND 1)
                        | even \<Rightarrow> push_bit 1 x OR (x AND 1)
                        | none \<Rightarrow> push_bit (nat (- col)) x))
      in if \<not> stabtab (rule env)
                (ijk OR uint (push_bit 4 (sh r AND 7) OR push_bit 1 (sh pr AND 7)
                               OR (drop_bit 1 (sh sr) AND 1)))
         then 0
         else stabilizes_loop env q ijk s col phases)"

definition stabilizes :: "search_env \<Rightarrow> queue \<Rightarrow> int \<Rightarrow> int \<Rightarrow> int \<Rightarrow> int \<Rightarrow> int \<Rightarrow> int" where
  "stabilizes env q i j k s col =
     stabilizes_loop env q
       (push_bit 11 (i AND 3) OR push_bit 9 (j AND 3) OR push_bit 7 (k AND 3)) s col
       [0..<period env]"

text \<open>
  The work arrays of \<open>terminate()\<close> and the two results of \<open>terminateCols()\<close>.
  \<^verbatim>\<open>short bestTerm[1<<16]; char predTerm[1<<16]; int fwdBestTerm, backBestTerm;
  #define BT(col,i,j) bestTerm[(((col)+2)<<10)|((i)<<5)|(j)]
  #define PT(col,i,j) predTerm[(((col)+2)<<10)|((i)<<5)|(j)]\<close>
  The counts stored in \<open>bestTerm\<close> stay far below the range of a \<^verbatim>\<open>short\<close>.
\<close>

record termwork =
  bestTerm :: "int \<Rightarrow> int"
  predTerm :: "int \<Rightarrow> int"
  fwdBestTerm :: int
  backBestTerm :: int

definition BTidx :: "int \<Rightarrow> int \<Rightarrow> int \<Rightarrow> int" where
  "BTidx col i j = push_bit 10 (col + 2) OR push_bit 5 i OR j"

definition BT :: "termwork \<Rightarrow> int \<Rightarrow> int \<Rightarrow> int \<Rightarrow> int" where
  "BT w col i j = bestTerm w (BTidx col i j)"

definition PT :: "termwork \<Rightarrow> int \<Rightarrow> int \<Rightarrow> int \<Rightarrow> int" where
  "PT w col i j = predTerm w (BTidx col i j)"

text \<open>
  \<^verbatim>\<open>int bestCount = 0x7fff;
  for (i = 0; i < 32; i++) for (j = 0; j < 32; j++) {
    int tot;
    if (BT(backCol,i,j) < 0 || BT(fwdCol,j,i) < 0) continue;
    tot = BT(backCol,i,j) + BT(fwdCol,j,i) - bitCount[i] - bitCount[j];
    if (tot < bestCount) { bestCount = tot; backBestTerm = i; fwdBestTerm = j; }
  }
  return (bestCount < 0x7fff);\<close>
\<close>

definition terminateCols :: "termwork \<Rightarrow> int \<Rightarrow> int \<Rightarrow> int \<times> termwork" where
  "terminateCols w backCol fwdCol =
     (let (bestCount, w') =
            fold (\<lambda>i. fold (\<lambda>j (bestCount, w).
                    if BT w backCol (int i) (int j) < 0 \<or> BT w fwdCol (int j) (int i) < 0
                    then (bestCount, w)
                    else (let tot = BT w backCol (int i) (int j) + BT w fwdCol (int j) (int i)
                                    - bitCount (int i) - bitCount (int j)
                          in if tot < bestCount
                             then (tot, w\<lparr>backBestTerm := int i, fwdBestTerm := int j\<rparr>)
                             else (bestCount, w))) [0..<32]) [0..<32] (32767, w)
      in (if bestCount < 32767 then 1 else 0, w'))"

text \<open>
  \<^verbatim>\<open>for (i = 0; i < 32; i++) for (j = 0; j < 32; j++) BT(col,i,j) = -1;\<close>
\<close>

definition terminate_clear :: "int \<Rightarrow> termwork \<Rightarrow> termwork" where
  "terminate_clear col w =
     fold (\<lambda>i. fold (\<lambda>j w. w\<lparr>bestTerm := (bestTerm w)(BTidx col (int i) (int j) := - 1)\<rparr>)
                  [0..<32]) [0..<32] w"

text \<open>
  The body of the innermost loop, on the work arrays and the flag \<open>foundAny\<close>:
  \<^verbatim>\<open>if (tcompatible(i,j,k) && BT(col+1,i,j)+bitCount[k] < (BT(col,j,k)&0x7fff) &&
      stabilizes(i,j,k,s,col)) {
    BT(col,j,k) = BT(col+1,i,j)+bitCount[k];
    PT(col,j,k) = i;
    foundAny = 1;
  }\<close>
\<close>

definition terminate_try ::
  "search_env \<Rightarrow> queue \<Rightarrow> int \<Rightarrow> int \<Rightarrow> int \<Rightarrow> int \<Rightarrow> int \<Rightarrow> termwork \<times> int
   \<Rightarrow> termwork \<times> int" where
  "terminate_try env q s col i j k st =
     (let w = fst st
      in if tcompatible (rule env) i j k
            \<and> BT w (col + 1) i j + bitCount k < (BT w col j k AND 32767)
            \<and> stabilizes env q i j k s col \<noteq> 0
         then (w\<lparr>bestTerm := (bestTerm w)(BTidx col j k := BT w (col + 1) i j + bitCount k),
                 predTerm := (predTerm w)(BTidx col j k := i)\<rparr>, 1)
         else st)"

text \<open>
  One column, after it has been cleared; the result is the pair of the work arrays
  and \<open>foundAny\<close>.
  \<^verbatim>\<open>for (i = 0; i < 32; i++) for (j = 0; j < 32; j++) if (BT(col+1,i,j) >= 0) {
    int k;
    for (k = 0; k < 32; k++) { ... }
  }\<close>
\<close>

definition terminate_col ::
  "search_env \<Rightarrow> queue \<Rightarrow> int \<Rightarrow> int \<Rightarrow> termwork \<Rightarrow> termwork \<times> int" where
  "terminate_col env q s col w =
     fold (\<lambda>i. fold (\<lambda>j st.
              if BT (fst st) (col + 1) (int i) (int j) \<ge> 0
              then fold (\<lambda>k. terminate_try env q s col (int i) (int j) (int k)) [0..<32] st
              else st) [0..<32]) [0..<32] (w, 0)"

text \<open>
  The loop over the columns and the \<^verbatim>\<open>switch\<close> that follows it; the argument \<open>col\<close> is
  the value of the variable at the test of the loop.
  \<^verbatim>\<open>while (col > lastCol) {
    int foundAny = 0;
    col--;
    ...
    if (!foundAny) return 0;
  }
  switch (symmetry) {
    case even: return terminateCols(-1,-1);
    case odd: return terminateCols(-1,0);
    case none: return terminateCols(totalWidth,-2);
  }\<close>
\<close>

function terminate_loop ::
  "search_env \<Rightarrow> queue \<Rightarrow> int \<Rightarrow> int \<Rightarrow> int \<Rightarrow> termwork \<Rightarrow> int \<times> termwork" where
  "terminate_loop env q s lastCol col w =
     (if col > lastCol
      then (case terminate_col env q s (col - 1) (terminate_clear (col - 1) w) of
              (w', foundAny) \<Rightarrow>
                if foundAny = 0 then (0, w')
                else terminate_loop env q s lastCol (col - 1) w')
      else (case symmetry env of
              even \<Rightarrow> terminateCols w (- 1) (- 1)
            | odd \<Rightarrow> terminateCols w (- 1) 0
            | none \<Rightarrow> terminateCols w (int (totalWidth (width env))) (- 2)))"
  by pat_completeness auto
termination
  by (relation "measure (\<lambda>(env, q, s, lastCol, col, w). nat (col - lastCol))") auto

declare terminate_loop.simps [simp del]

text \<open>
  \<^verbatim>\<open>int col = totalWidth + addlStatorCols;
  int lastCol = -1;
  if (symmetry == none) lastCol = -2;
  if (col > 63) col = 63;
  for (i = 0; i < 32; i++) for (j = 0; j < 32; j++) BT(col,i,j) = -1;
  BT(col,0,0) = 0;
  PT(col,0,0) = 0;\<close>
\<close>

definition terminate ::
  "search_env \<Rightarrow> int \<Rightarrow> queue \<Rightarrow> int \<Rightarrow> termwork \<Rightarrow> int \<times> termwork" where
  "terminate env addlStatorCols q s w =
     (let col0 = int (totalWidth (width env)) + addlStatorCols;
          lastCol = (if symmetry env = none then - 2 else - 1);
          col = (if col0 > 63 then 63 else col0);
          w1 = terminate_clear col w;
          w2 = w1\<lparr>bestTerm := (bestTerm w1)(BTidx col 0 0 := 0)\<rparr>;
          w3 = w2\<lparr>predTerm := (predTerm w2)(BTidx col 0 0 := 0)\<rparr>
      in terminate_loop env q s lastCol col w3)"


section \<open>Reporting a pattern: \<open>nontrivial()\<close> and \<open>success()\<close>\<close>

text \<open>
  \<^verbatim>\<open>while (parentState(s) != s) {
    if (aperiodic(s)) return 1;
    s = parentState(s);
  }
  return 0;\<close>
  The walk ends only if the chain of parents reaches a state that is its own parent.
\<close>

partial_function (option) nontrivial :: "nat \<Rightarrow> (nat \<Rightarrow> int) \<Rightarrow> queue \<Rightarrow> int \<Rightarrow> int option" where
  "nontrivial P p0 q s =
     (if parentState q s \<noteq> s
      then (case aperiodic P p0 q s of
              None \<Rightarrow> None
            | Some a \<Rightarrow> if a \<noteq> 0 then Some 1 else nontrivial P p0 q (parentState q s))
      else Some 0)"

text \<open>
  The walk of \<open>success()\<close> that collects the rows of the pattern:
  \<^verbatim>\<open>while (parentState(s) != s && s != 0) {
    rows[2*i] = rowOfState(s, 0);
    rows[2*i+1] = rowOfState(s, row_sym_phase_offset);
    i++;
    s = parentState(s);
  }\<close>
\<close>

partial_function (option) success_walk ::
  "queue \<Rightarrow> int \<Rightarrow> int \<Rightarrow> int \<Rightarrow> (int \<Rightarrow> Row) \<Rightarrow> (int \<times> (int \<Rightarrow> Row)) option" where
  "success_walk q off s i rws =
     (if parentState q s \<noteq> s \<and> s \<noteq> 0
      then success_walk q off (parentState q s) (i + 1)
             (rws(2 * i := rowOfState q s 0, 2 * i + 1 := rowOfState q s (nat off)))
      else Some (i, rws))"

text \<open>
  \<^verbatim>\<open>if (row_symmetry == none && !terminate(s)) return;	/* incomplete success */\<close>
  After this guard the function prints the rows it has collected and every path
  ends in \<^verbatim>\<open>exit(0)\<close>.  The printed text is not part of the result: \<open>success\<close> either
  returns to its caller, with the work arrays as \<open>terminate()\<close> left them, or ends
  the program with a pattern.
\<close>

definition success ::
  "search_env \<Rightarrow> int \<Rightarrow> queue \<Rightarrow> sym_type \<Rightarrow> int \<Rightarrow> int \<Rightarrow> termwork \<Rightarrow> (int \<Rightarrow> Row)
   \<Rightarrow> (exit_reason + termwork) option" where
  "success env addlStatorCols q row_symmetry row_sym_phase_offset s w rws =
     (if row_symmetry = none \<and> fst (terminate env addlStatorCols q s w) = 0
      then Some (Inr (snd (terminate env addlStatorCols q s w)))
      else (case success_walk q row_sym_phase_offset s 0 rws of
              None \<Rightarrow> None
            | Some r \<Rightarrow> Some (Inl PatternFound)))"

text \<open>
  The test at the head of \<open>process()\<close>, the only caller of the three functions:
  \<^verbatim>\<open>if (terminal(s) && nontrivial(s)) success(s);\<close>
  \<open>off\<close> is the value of \<open>row_sym_phase_offset\<close> before the call.  The result is the
  exit of the program or, when the test returns, the work arrays of \<open>terminate()\<close>
  together with the values that \<open>terminal()\<close> has given to \<open>row_symmetry\<close> and
  \<open>row_sym_phase_offset\<close>.
\<close>

definition process_check ::
  "search_env \<Rightarrow> int \<Rightarrow> int \<Rightarrow> (nat \<Rightarrow> int) \<Rightarrow> queue \<Rightarrow> int \<Rightarrow> int \<Rightarrow> termwork \<Rightarrow> (int \<Rightarrow> Row)
   \<Rightarrow> (exit_reason + termwork \<times> sym_type \<times> int) option" where
  "process_check env initialTermState addlStatorCols p0 q s off w rws =
     (case terminal env initialTermState q s off of
        (t, row_symmetry, off') \<Rightarrow>
          if t \<noteq> 0
          then (case nontrivial (period env) p0 q s of
                  None \<Rightarrow> None
                | Some n \<Rightarrow>
                    if n \<noteq> 0
                    then (case success env addlStatorCols q row_symmetry off' s w rws of
                            None \<Rightarrow> None
                          | Some (Inl e) \<Rightarrow> Some (Inl e)
                          | Some (Inr w') \<Rightarrow> Some (Inr (w', row_symmetry, off')))
                    else Some (Inr (w, row_symmetry, off')))
          else Some (Inr (w, row_symmetry, off')))"

text \<open>The \<open>n\<close>-th state on the chain of parents of \<open>s\<close>.\<close>

fun ancestor :: "queue \<Rightarrow> nat \<Rightarrow> int \<Rightarrow> int" where
  "ancestor q 0 s = s"
| "ancestor q (Suc n) s = ancestor q n (parentState q s)"

text \<open>
  A column \<open>col\<close> of the stator can be filled in if three adjacent stator columns
  \<open>i\<close>, \<open>j\<close>, \<open>k\<close> of five cells are stable and agree with the rows of the state.
\<close>

definition closing_triple :: "search_env \<Rightarrow> queue \<Rightarrow> int \<Rightarrow> int \<Rightarrow> bool" where
  "closing_triple env q s col =
     (\<exists>i\<in>{0..<32}. \<exists>j\<in>{0..<32}. \<exists>k\<in>{0..<32}.
        tcompatible (rule env) (int i) (int j) (int k)
        \<and> stabilizes env q (int i) (int j) (int k) s col \<noteq> 0)"

text \<open>
  An example: Life (rule \<^verbatim>\<open>010014\<close>), period 2, odd symmetry, three rotor columns and
  no stator columns.  The root has rows 0; its child at offset 3 has the rows 1 and
  2 in the two phases.
\<close>

definition C1_env :: search_env where
  "C1_env = \<lparr>period = 2, symmetry = odd, extTab = (\<lambda>_. 0),
             width = \<lparr>rotorWidth = 3, leftStatorWidth = 0, rightStatorWidth = 0\<rparr>,
             rule = 4108, allow_row_sym = True, zeroLotLine = False\<rparr>"

definition C1_queue :: queue where
  "C1_queue = \<lparr>statespace = (\<lambda>_. 0)(4 := 1, 5 := 2), firstUnprocessedState = 3,
               firstFreeState = 6\<rparr>"

definition C1_work :: termwork where
  "C1_work = \<lparr>bestTerm = (\<lambda>_. 0), predTerm = (\<lambda>_. 0), fwdBestTerm = 0, backBestTerm = 0\<rparr>"

text \<open>
  A second queue: the state at offset 6 repeats the rows of its parent, the state at
  offset 3.
\<close>

definition C1_repeat :: queue where
  "C1_repeat = \<lparr>statespace = (\<lambda>_. 0)(4 := 1, 5 := 2, 6 := 3, 7 := 1, 8 := 2),
                firstUnprocessedState = 6, firstFreeState = 9\<rparr>"


section \<open>Properties of the stator search\<close>

lemma fold_inv:
  assumes "I st" and "\<And>x st. x \<in> set xs \<Longrightarrow> I st \<Longrightarrow> I (f x st)"
  shows "I (fold f xs st)"
  using assms by (induction xs arbitrary: st) auto

text \<open>The flag \<open>foundAny\<close> is set only by a triple that passes both tests.\<close>

lemma terminate_col_found:
  assumes "snd (terminate_col env q s col w) \<noteq> 0"
  shows "closing_triple env q s col"
proof -
  define I where "I = (\<lambda>st :: termwork \<times> int. snd st \<noteq> 0 \<longrightarrow> closing_triple env q s col)"
  have tr: "I (terminate_try env q s col (int i) (int j) (int k) st)"
    if "I st" "i < 32" "j < 32" "k < 32" for i j k st
    using that unfolding I_def closing_triple_def terminate_try_def Let_def by auto
  have k: "I (fold (\<lambda>k. terminate_try env q s col (int i) (int j) (int k)) [0..<32] st)"
    if "I st" "i < 32" "j < 32" for i j st
    by (rule fold_inv [where I = I]) (use that tr in auto)
  have j: "I (fold (\<lambda>j st.
              if BT (fst st) (col + 1) (int i) (int j) \<ge> 0
              then fold (\<lambda>k. terminate_try env q s col (int i) (int j) (int k)) [0..<32] st
              else st) [0..<32] st)"
    if "I st" "i < 32" for i st
    by (rule fold_inv [where I = I]) (use that k in auto)
  have "I (terminate_col env q s col w)"
    unfolding terminate_col_def
    by (rule fold_inv [where I = I]) (use j in \<open>auto simp: I_def\<close>)
  with assms show ?thesis by (simp add: I_def)
qed

text \<open>A column without such a triple ends the loop with the result 0.\<close>

lemma terminate_loop_no_triple:
  assumes "lastCol \<le> c" "c < col" and "\<not> closing_triple env q s c"
  shows "fst (terminate_loop env q s lastCol col w) = 0"
  using assms
proof (induction env q s lastCol col w rule: terminate_loop.induct)
  case (1 env q s lastCol col w)
  obtain w' fa where r: "terminate_col env q s (col - 1) (terminate_clear (col - 1) w) = (w', fa)"
    by (cases "terminate_col env q s (col - 1) (terminate_clear (col - 1) w)")
  have gt: "col > lastCol" using "1.prems" by simp
  show ?case
  proof (cases "fa = 0")
    case True
    then show ?thesis using gt r by (simp add: terminate_loop.simps [of env q s lastCol col w])
  next
    case False
    have "c \<noteq> col - 1"
    proof
      assume "c = col - 1"
      with terminate_col_found [of env q s "col - 1" "terminate_clear (col - 1) w"] r False
        "1.prems"(3)
      show False by auto
    qed
    then have "c < col - 1" using "1.prems" by simp
    from "1.IH" [OF gt r [symmetric] False "1.prems"(1) this "1.prems"(3)]
    show ?thesis using gt r False by (simp add: terminate_loop.simps [of env q s lastCol col w])
  qed
qed

lemma terminate_no_triple:
  assumes "(if symmetry env = none then - 2 else - 1) \<le> c"
    and "c < min 63 (int (totalWidth (width env)) + addlStatorCols)"
    and "\<not> closing_triple env q s c"
  shows "fst (terminate env addlStatorCols q s w) = 0"
  unfolding terminate_def Let_def
  by (rule terminate_loop_no_triple [OF assms(1) _ assms(3)]) (use assms(2) in auto)

text \<open>
  The two walks along the chain of parents end when the chain reaches a state that
  is its own parent, and \<open>aperiodic\<close> returns for every period.
\<close>

lemma success_walk_ends:
  assumes "parentState q (ancestor q n s) = ancestor q n s"
  shows "\<exists>r. success_walk q off s i rws = Some r"
  using assms
proof (induction n arbitrary: s i rws)
  case 0
  then show ?case by (simp add: success_walk.simps [of q off s])
next
  case (Suc n)
  show ?case
  proof (cases "parentState q s \<noteq> s \<and> s \<noteq> 0")
    case True
    from Suc.prems
    have "parentState q (ancestor q n (parentState q s)) = ancestor q n (parentState q s)"
      by simp
    from Suc.IH [OF this] True show ?thesis
      by (subst success_walk.simps) simp
  next
    case False
    then show ?thesis by (subst success_walk.simps) auto
  qed
qed

lemma aperiodic_returns:
  assumes "1 \<le> P"
  shows "\<exists>v. aperiodic P p0 q s = Some v"
proof (cases "P = 1")
  case True
  then show ?thesis by (simp add: aperiodic_def)
next
  case False
  have "\<exists>p'. kmp_for (rowOfState q s) [1..<P] (p0(0 := - 1)) = Some p'
            \<and> (\<forall>j<P. - 1 \<le> p' j \<and> is_lb (rowOfState q s) (Suc j) (nat (p' j + 1)))"
    using assms by (intro kmp_for_correct) (auto simp: is_lb_1)
  then show ?thesis using False by (auto simp: aperiodic_def Let_def)
qed

lemma nontrivial_ends:
  assumes "1 \<le> P" and "parentState q (ancestor q n s) = ancestor q n s"
  shows "\<exists>v. nontrivial P p0 q s = Some v"
  using assms(2)
proof (induction n arbitrary: s)
  case 0
  then show ?case by (simp add: nontrivial.simps [of P p0 q s])
next
  case (Suc n)
  obtain a where a: "aperiodic P p0 q s = Some a"
    using aperiodic_returns [OF assms(1)] by blast
  from Suc.prems
  have "parentState q (ancestor q n (parentState q s)) = ancestor q n (parentState q s)"
    by simp
  from Suc.IH [OF this] a show ?case
    by (subst nontrivial.simps) auto
qed

text \<open>
  So \<open>success()\<close> has two outcomes: the return through its guard, and the end of the
  program with the pattern.
\<close>

lemma success_result:
  assumes "parentState q (ancestor q n s) = ancestor q n s"
  shows "success env addlStatorCols q row_symmetry off s w rws =
     (if row_symmetry = none \<and> fst (terminate env addlStatorCols q s w) = 0
      then Some (Inr (snd (terminate env addlStatorCols q s w)))
      else Some (Inl PatternFound))"
  using success_walk_ends [OF assms, of off 0 rws]
  by (auto simp: success_def)

text \<open>The example: the values of the rows, of the tables and of the two tests.\<close>

lemma C1_rows:
  "parentState C1_queue 3 = 0" "parentState C1_queue 0 = 0"
  "rowOfState C1_queue 3 0 = 1" "rowOfState C1_queue 3 (Suc 0) = 2"
  "rowOfState C1_queue 0 0 = 0" "rowOfState C1_queue 0 (Suc 0) = 0"
  by (simp_all add: C1_queue_def parentState_def rowOfState_def)

lemma C1_env_simps:
  "period C1_env = 2" "symmetry C1_env = odd" "rule C1_env = 4108"
  "allow_row_sym C1_env = True" "zeroLotLine C1_env = False"
  "totalWidth (width C1_env) = 3"
  by (simp_all add: C1_env_def totalWidth_def)

lemma C1_initTermTabs: "initTermTabs 4108 False = Some (65535, 3)"
  by code_simp

lemma C1_nextterms:
  "NEXTTERM 4108 65535 1 0 2 2 = 65535" "NEXTTERM 4108 65535 2 0 1 2 = 65535"
  "NEXTTERM 4108 65535 1 0 2 (Suc 0) = 65535" "NEXTTERM 4108 65535 2 0 1 (Suc 0) = 30591"
  "NEXTTERM 4108 30591 1 0 2 0 = 10990" "NEXTTERM 4108 30591 2 0 1 0 = 30583"
  "NEXTTERM 4108 8806 (ODDEXT 1) (ODDEXT 0) 4 0 = 21573"
  "NEXTTERM 4108 8806 (ODDEXT 2) (ODDEXT 0) 2 0 = 5460"
  by code_simp+

lemma C1_revTerm: "revTerm 5188 = 4642"
  by code_simp

lemma C1_terminal_cols:
  "terminal_cols C1_env C1_queue 3 0 (rev [0..<3]) 65535 = Some 8806"
proof -
  have l: "rev [0..<3] = [2, 1, 0::nat]" by (simp add: upt_conv_Cons)
  have p: "[0..<2] = [0, Suc 0]" by (simp add: upt_conv_Cons)
  show ?thesis
    unfolding l by (simp add: C1_env_simps C1_rows C1_nextterms p)
qed

lemma C1_terminal_value: "terminal C1_env 65535 C1_queue 3 0 = (1, none, 1)"
proof -
  have p: "[0..<2] = [0, Suc 0]" by (simp add: upt_conv_Cons)
  have e: "terminal_end C1_env 65535 C1_queue 3 0 8806 = 1"
    by (simp add: terminal_end_def C1_env_simps C1_rows C1_nextterms C1_revTerm p)
  show ?thesis
    by (simp add: terminal_def Let_def C1_env_simps C1_rows C1_terminal_cols e p)
qed

text \<open>\<open>stabilizes()\<close> reads the two low bits of each of its columns only.\<close>

lemma stabilizes_low:
  "stabilizes env q i j k s col = stabilizes env q (i AND 3) (j AND 3) (k AND 3) s col"
  by (simp add: stabilizes_def and.assoc)

lemma and_3_cases: "(i::int) AND 3 \<in> set [0, 1, 2, 3]"
proof -
  have "i AND 3 = i mod 4"
    using take_bit_eq_mask [of 2 i] by (simp add: take_bit_eq_mod mask_eq_exp_minus_1)
  moreover have "0 \<le> i mod 4" "i mod 4 < 4" by simp_all
  ultimately show ?thesis by auto
qed

lemma C1_stabilizes_low:
  "list_all (\<lambda>i. list_all (\<lambda>j. list_all (\<lambda>k. stabilizes C1_env C1_queue i j k 3 0 = 0)
      [0, 1, 2, 3]) [0, 1, 2, 3]) [0, 1, 2, 3]"
  by code_simp

text \<open>At column 0 of the example no choice of stator columns is stable.\<close>

lemma C1_stabilizes: "stabilizes C1_env C1_queue i j k 3 0 = 0"
proof -
  have "\<forall>i\<in>set [0, 1, 2, 3]. \<forall>j\<in>set [0, 1, 2, 3]. \<forall>k\<in>set [0, 1, 2, 3].
          stabilizes C1_env C1_queue i j k 3 0 = 0"
    using C1_stabilizes_low unfolding list_all_iff .
  then have "stabilizes C1_env C1_queue (i AND 3) (j AND 3) (k AND 3) 3 0 = 0"
    using and_3_cases [of i] and_3_cases [of j] and_3_cases [of k] by blast
  then show ?thesis by (subst stabilizes_low)
qed

lemma C1_no_triple: "\<not> closing_triple C1_env C1_queue 3 0"
  by (simp add: closing_triple_def C1_stabilizes)

lemma C1_nontrivial: "nontrivial 2 (\<lambda>_. 0) C1_queue 3 = Some 1"
  by (simp add: nontrivial.simps [of _ _ _ 3] aperiodic_def kmp_while.simps upt_conv_Cons
      C1_queue_def parentState_def rowOfState_def)

text \<open>
  Claim C1, as stated: whenever \<open>terminal(s)\<close> returns true with \<open>row_symmetry = none\<close>,
  \<open>terminate(s)\<close> returns true as well, so that the guard of \<open>success()\<close> is never taken.
  In the example the tables give \<open>initialTermState = 0xffff\<close> and \<open>addlStatorCols = 3\<close>;
  on the child of the root with the rows 1 and 2, \<open>terminal\<close> returns 1 and leaves
  \<open>row_symmetry = none\<close>, \<open>nontrivial\<close> returns 1, \<open>terminate\<close> returns 0 (no stator
  column fits at column 0), and \<open>success\<close> returns to its caller through the guard.
\<close>

theorem C1_terminal_counterexample:
  "initTermTabs (rule C1_env) (zeroLotLine C1_env) = Some (65535, 3)
   \<and> terminal C1_env 65535 C1_queue 3 0 = (1, none, 1)
   \<and> nontrivial (period C1_env) (\<lambda>_. 0) C1_queue 3 = Some 1
   \<and> fst (terminate C1_env 3 C1_queue 3 C1_work) = 0
   \<and> success C1_env 3 C1_queue none 1 3 C1_work (\<lambda>_. 0)
       = Some (Inr (snd (terminate C1_env 3 C1_queue 3 C1_work)))"
proof -
  have t: "fst (terminate C1_env 3 C1_queue 3 C1_work) = 0"
    by (rule terminate_no_triple [where c = 0]) (simp_all add: C1_env_simps C1_no_triple)
  then have "success C1_env 3 C1_queue none 1 3 C1_work (\<lambda>_. 0)
       = Some (Inr (snd (terminate C1_env 3 C1_queue 3 C1_work)))"
    by (simp add: success_def)
  with t show ?thesis
    by (simp add: C1_env_simps C1_initTermTabs C1_terminal_value C1_nontrivial)
qed

text \<open>
  Claim C1, amended.  \<open>terminal(s)\<close> returning true with \<open>row_symmetry = none\<close> does not
  imply that \<open>terminate(s)\<close> returns true.  What holds, for every period of at least
  1 and every state \<open>s\<close> whose chain of parents reaches a state that is its own
  parent, is this.  The test at the head of \<open>process(s)\<close> always returns or ends the
  program.  If \<open>terminal(s)\<close> or \<open>nontrivial(s)\<close> returns false, it returns without a
  call of \<open>success()\<close>.  If both return true, \<open>terminal\<close> has left \<open>row_symmetry = none\<close>
  and \<open>terminate(s)\<close> returns false, \<open>success(s)\<close> returns through its guard and the
  search goes on.  In every other case \<open>success(s)\<close> ends the program with the
  pattern.  And \<open>terminate(s)\<close> returns false whenever, at one of the columns \<open>c\<close> it
  visits, from \<open>min(totalWidth + addlStatorCols, 63) - 1\<close> down to \<open>lastCol\<close> (\<open>-2\<close>
  without symmetry, \<open>-1\<close> otherwise), no triple of stator columns \<open>(i, j, k)\<close> satisfies
  both \<open>tcompatible(i, j, k)\<close> and \<open>stabilizes(i, j, k, s, c)\<close>.
\<close>

theorem C1_pattern_reported:
  assumes "1 \<le> period env" and "parentState q (ancestor q n s) = ancestor q n s"
  shows "process_check env initialTermState addlStatorCols p0 q s off w rws =
       (if fst (terminal env initialTermState q s off) \<noteq> 0
           \<and> (\<exists>v. nontrivial (period env) p0 q s = Some v \<and> v \<noteq> 0)
        then (if fst (snd (terminal env initialTermState q s off)) = none
                 \<and> fst (terminate env addlStatorCols q s w) = 0
              then Some (Inr (snd (terminate env addlStatorCols q s w),
                              snd (terminal env initialTermState q s off)))
              else Some (Inl PatternFound))
        else Some (Inr (w, snd (terminal env initialTermState q s off))))
     \<and> ((if symmetry env = none then - 2 else - 1) \<le> c
          \<and> c < min 63 (int (totalWidth (width env)) + addlStatorCols)
          \<and> \<not> closing_triple env q s c
        \<longrightarrow> fst (terminate env addlStatorCols q s w) = 0)"
proof -
  obtain t rsym off' where t: "terminal env initialTermState q s off = (t, rsym, off')"
    by (cases "terminal env initialTermState q s off")
  obtain v where v: "nontrivial (period env) p0 q s = Some v"
    using nontrivial_ends [OF assms] by blast
  have "process_check env initialTermState addlStatorCols p0 q s off w rws =
       (if fst (terminal env initialTermState q s off) \<noteq> 0
           \<and> (\<exists>v. nontrivial (period env) p0 q s = Some v \<and> v \<noteq> 0)
        then (if fst (snd (terminal env initialTermState q s off)) = none
                 \<and> fst (terminate env addlStatorCols q s w) = 0
              then Some (Inr (snd (terminate env addlStatorCols q s w),
                              snd (terminal env initialTermState q s off)))
              else Some (Inl PatternFound))
        else Some (Inr (w, snd (terminal env initialTermState q s off))))"
    by (simp add: process_check_def t v success_result [OF assms(2)])
  moreover have "fst (terminate env addlStatorCols q s w) = 0"
    if "(if symmetry env = none then - 2 else - 1) \<le> c"
      "c < min 63 (int (totalWidth (width env)) + addlStatorCols)"
      "\<not> closing_triple env q s c"
    using that by (rule terminate_no_triple)
  ultimately show ?thesis by blast
qed

text \<open>
  Both outcomes of \<open>success()\<close> occur.  In the first example \<open>terminate\<close> returns 0, for
  column 0 has no triple, and the test returns through the guard.  In the second
  queue the state at offset 6 repeats the rows of its parent: \<open>terminal\<close> reports an
  even row symmetry, and the program ends with the pattern.
\<close>

theorem C1_pattern_reported_witness:
  "fst (terminate C1_env 3 C1_queue 3 C1_work) = 0
   \<and> process_check C1_env 65535 3 (\<lambda>_. 0) C1_queue 3 0 C1_work (\<lambda>_. 0)
       = Some (Inr (snd (terminate C1_env 3 C1_queue 3 C1_work), none, 1))
   \<and> terminal C1_env 65535 C1_repeat 6 0 = (1, even, 0)
   \<and> process_check C1_env 65535 3 (\<lambda>_. 0) C1_repeat 6 0 C1_work (\<lambda>_. 0)
       = Some (Inl PatternFound)"
proof -
  have P: "1 \<le> period C1_env" by (simp add: C1_env_simps)
  have a1: "parentState C1_queue (ancestor C1_queue 1 3) = ancestor C1_queue 1 3"
    by (simp add: C1_rows)
  have a2: "parentState C1_repeat (ancestor C1_repeat 2 6) = ancestor C1_repeat 2 6"
    by (simp add: C1_repeat_def parentState_def numeral_2_eq_2)
  have col: "(if symmetry C1_env = none then - 2 else - 1) \<le> (0::int)
      \<and> (0::int) < min 63 (int (totalWidth (width C1_env)) + 3)
      \<and> \<not> closing_triple C1_env C1_queue 3 0"
    by (simp add: C1_env_simps C1_no_triple)
  have t2: "terminal C1_env 65535 C1_repeat 6 0 = (1, even, 0)"
    by (simp add: terminal_def Let_def C1_env_simps C1_repeat_def parentState_def
        rowOfState_def upt_conv_Cons)
  have n2: "nontrivial 2 (\<lambda>_. 0) C1_repeat 6 = Some 1"
    by (simp add: nontrivial.simps [of _ _ _ 6] aperiodic_def kmp_while.simps upt_conv_Cons
        C1_repeat_def parentState_def rowOfState_def)
  note r1 = C1_pattern_reported [OF P a1, of 65535 3 "\<lambda>_. 0" 0 C1_work "\<lambda>_. 0" 0]
  note r2 = C1_pattern_reported [OF P a2, of 65535 3 "\<lambda>_. 0" 0 C1_work "\<lambda>_. 0" 0]
  from r1 col have z: "fst (terminate C1_env 3 C1_queue 3 C1_work) = 0" by blast
  from r1 z have "process_check C1_env 65535 3 (\<lambda>_. 0) C1_queue 3 0 C1_work (\<lambda>_. 0)
       = Some (Inr (snd (terminate C1_env 3 C1_queue 3 C1_work), none, 1))"
    by (simp add: C1_terminal_value C1_nontrivial C1_env_simps)
  moreover from r2 have "process_check C1_env 65535 3 (\<lambda>_. 0) C1_repeat 6 0 C1_work (\<lambda>_. 0)
       = Some (Inl PatternFound)"
    by (simp add: t2 n2 C1_env_simps)
  ultimately show ?thesis using z t2 by simp
qed


section \<open>Garbage collection of the queue\<close>

text \<open>
  The stages of \<open>compact()\<close> that follow its call of \<open>deepen()\<close>.  Each loop walks the
  queue until it meets a parent word of a given kind, so each is a partial function;
  \<^verbatim>\<open>failure()\<close> ends the program.
  \<^verbatim>\<open>while (parentState(y) == unused) y = previousState(y);\<close>
\<close>

partial_function (option) compact_skip_unused :: "nat \<Rightarrow> queue \<Rightarrow> int \<Rightarrow> int option" where
  "compact_skip_unused P q y =
     (if parentState q y = unused then compact_skip_unused P q (previousState P y) else Some y)"

text \<open>
  \<^verbatim>\<open>while (parentState(y) != x) {
    if (parentState(x) == x) { fprintf(stderr,"Unable to find parent of y!\n"); failure(); }
    setParentState(x, unused);
    x = previousState(x);
    counter++;
  }\<close>
\<close>

partial_function (option) compact_mark_unused ::
  "nat \<Rightarrow> queue \<Rightarrow> int \<Rightarrow> int \<Rightarrow> int \<Rightarrow> (exit_reason + queue \<times> int \<times> int) option" where
  "compact_mark_unused P q x y counter =
     (if parentState q y \<noteq> x
      then (if parentState q x = x then Some (Inl NoParent)
            else compact_mark_unused P (setParentState x unused q) (previousState P x) y
                   (counter + 1))
      else Some (Inr (q, x, counter)))"

text \<open>
  \<^verbatim>\<open>while (parentState(y) == x || parentState(y) == unused) y = previousState(y);\<close>
\<close>

partial_function (option) compact_skip_children :: "nat \<Rightarrow> queue \<Rightarrow> int \<Rightarrow> int \<Rightarrow> int option" where
  "compact_skip_children P q x y =
     (if parentState q y = x \<or> parentState q y = unused
      then compact_skip_children P q x (previousState P y) else Some y)"

text \<open>
  Stage 1, which marks the states without a child that is still in use:
  \<^verbatim>\<open>do {
    while (parentState(y) != x) { ... }
    if (parentState(x) == x) break;
    while (parentState(y) == x || parentState(y) == unused) y = previousState(y);
    x = previousState(x);
  } while (parentState(x) != x);\<close>
\<close>

partial_function (option) compact_stage1 ::
  "nat \<Rightarrow> queue \<Rightarrow> int \<Rightarrow> int \<Rightarrow> int \<Rightarrow> (exit_reason + queue \<times> int) option" where
  "compact_stage1 P q x y counter =
     (case compact_mark_unused P q x y counter of
        None \<Rightarrow> None
      | Some (Inl e) \<Rightarrow> Some (Inl e)
      | Some (Inr (q', x', counter')) \<Rightarrow>
          if parentState q' x' = x' then Some (Inr (q', counter'))
          else (case compact_skip_children P q' x' y of
                  None \<Rightarrow> None
                | Some y' \<Rightarrow>
                    if parentState q' (previousState P x') \<noteq> previousState P x'
                    then compact_stage1 P q' (previousState P x') y' counter'
                    else Some (Inr (q', counter'))))"

text \<open>
  Stage 2, which moves the states in use to the front:
  \<^verbatim>\<open>x = firstState;
  while (parentState(x) != unused) x = nextState(x);
  y = x;
  while (y < firstFreeState) {
    if (parentState(y) != unused) {
      setParentState(x, parentState(y));
      for (phase = 0; phase < period; phase++) setRowOfState(x, phase, rowOfState(y, phase));
      x = nextState(x);
    }
    if (y == firstUnprocessedState) firstUnprocessedState = x;
    y = nextState(y);
  }
  firstFreeState = x;\<close>
\<close>

partial_function (option) compact_first_unused :: "nat \<Rightarrow> queue \<Rightarrow> int \<Rightarrow> (exit_reason + int) option" where
  "compact_first_unused P q x =
     (if parentState q x \<noteq> unused
      then (case nextState P x of
              Inl e \<Rightarrow> Some (Inl e)
            | Inr l \<Rightarrow> compact_first_unused P q l)
      else Some (Inr x))"

partial_function (option) compact_move ::
  "nat \<Rightarrow> queue \<Rightarrow> int \<Rightarrow> int \<Rightarrow> (exit_reason + queue \<times> int) option" where
  "compact_move P q x y =
     (if y < firstFreeState q
      then (case (if parentState q y \<noteq> unused
                  then (case nextState P x of
                          Inl e \<Rightarrow> Inl e
                        | Inr l \<Rightarrow>
                            Inr (fold (\<lambda>phase q. setRowOfState x phase (rowOfState q y phase) q)
                                   [0..<P] (setParentState x (parentState q y) q), l))
                  else Inr (q, x)) of
              Inl e \<Rightarrow> Some (Inl e)
            | Inr (q1, x1) \<Rightarrow>
                (let q2 = (if y = firstUnprocessedState q1
                           then q1\<lparr>firstUnprocessedState := x1\<rparr> else q1)
                 in case nextState P y of
                      Inl e \<Rightarrow> Some (Inl e)
                    | Inr l \<Rightarrow> compact_move P q2 x1 l))
      else Some (Inr (q, x)))"

text \<open>
  Stage 3, which rewrites the parent words and fills the hash table again:
  \<^verbatim>\<open>x = y = firstState;
  x = nextState(x);
  while (x < firstFreeState) {
    if (parentState(x) == y) setParentState(x, parentState(previousState(x)));
    else {
      y = parentState(x);
      setParentState(x, nextState(parentState(previousState(x))));
    }
    (void) hash(x);
    x = nextState(x);
  }\<close>
\<close>

partial_function (option) compact_fix_parents ::
  "nat \<Rightarrow> salts \<Rightarrow> queue \<Rightarrow> (int \<Rightarrow> int) \<Rightarrow> int \<Rightarrow> int
   \<Rightarrow> (exit_reason + queue \<times> (int \<Rightarrow> int)) option" where
  "compact_fix_parents P sl q hashTable x y =
     (if x < firstFreeState q
      then (case (if parentState q x = y
                  then Inr (setParentState x (parentState q (previousState P x)) q, y)
                  else (case nextState P (parentState q (previousState P x)) of
                          Inl e \<Rightarrow> Inl e
                        | Inr l \<Rightarrow> Inr (setParentState x l q, parentState q x))) of
              Inl e \<Rightarrow> Some (Inl e)
            | Inr (q1, y1) \<Rightarrow>
                (case nextState P x of
                   Inl e \<Rightarrow> Some (Inl e)
                 | Inr l \<Rightarrow>
                     compact_fix_parents P sl q1 (snd (hash P sl q1 hashTable x)) l y1))
      else Some (Inr (q, hashTable)))"

text \<open>
  The table that \<open>clearHash()\<close> leaves: \<^verbatim>\<open>for (i = 0; i < HASHSIZE; i++) hashTable[i] = 0;\<close>
\<close>

definition clearHash :: "int \<Rightarrow> int" where
  "clearHash = (\<lambda>_. 0)"

text \<open>
  \<open>compact()\<close> from the end of \<open>deepen()\<close> on; the result is the queue and the hash
  table.
  \<^verbatim>\<open>x = previousState(firstUnprocessedState);
  y = previousState(firstFreeState);
  clearHash();
  while (parentState(y) == unused) y = previousState(y);
  do { ... } while (parentState(x) != x);
  if (counter) { ... stage 2 ... stage 3 ... }\<close>
\<close>

definition compact_stages ::
  "nat \<Rightarrow> salts \<Rightarrow> queue \<Rightarrow> (exit_reason + queue \<times> (int \<Rightarrow> int)) option" where
  "compact_stages P sl q =
     (case compact_skip_unused P q (previousState P (firstFreeState q)) of
        None \<Rightarrow> None
      | Some y \<Rightarrow>
         (case compact_stage1 P q (previousState P (firstUnprocessedState q)) y 0 of
            None \<Rightarrow> None
          | Some (Inl e) \<Rightarrow> Some (Inl e)
          | Some (Inr (q1, counter)) \<Rightarrow>
              if counter \<noteq> 0
              then (case compact_first_unused P q1 firstState of
                      None \<Rightarrow> None
                    | Some (Inl e) \<Rightarrow> Some (Inl e)
                    | Some (Inr x) \<Rightarrow>
                       (case compact_move P q1 x x of
                          None \<Rightarrow> None
                        | Some (Inl e) \<Rightarrow> Some (Inl e)
                        | Some (Inr (q2, x2)) \<Rightarrow>
                           (case nextState P firstState of
                              Inl e \<Rightarrow> Some (Inl e)
                            | Inr x3 \<Rightarrow>
                                compact_fix_parents P sl (q2\<lparr>firstFreeState := x2\<rparr>)
                                  clearHash x3 firstState)))
              else Some (Inr (q1, clearHash))))"


section \<open>Properties of the garbage collection\<close>

text \<open>
  Stage 1 counts the states it marks.  If the count stays 0, it has changed nothing.
\<close>

definition mark_post :: "queue \<Rightarrow> int \<Rightarrow> int \<Rightarrow> exit_reason + queue \<times> int \<times> int \<Rightarrow> bool" where
  "mark_post q x c r =
     (case r of Inl e \<Rightarrow> True
      | Inr (q', x', c') \<Rightarrow> c \<le> c' \<and> (c' = c \<longrightarrow> q' = q \<and> x' = x))"

definition stage1_post :: "queue \<Rightarrow> int \<Rightarrow> exit_reason + queue \<times> int \<Rightarrow> bool" where
  "stage1_post q c r =
     (case r of Inl e \<Rightarrow> True | Inr (q', c') \<Rightarrow> c \<le> c' \<and> (c' = c \<longrightarrow> q' = q))"

lemma compact_mark_unused_counter:
  assumes "compact_mark_unused P q x y c = Some r"
  shows "mark_post q x c r"
proof -
  have "(case ((((P, q), x), y), c) of ((((P, q), x), y), c) \<Rightarrow> mark_post q x c) r"
    apply (rule compact_mark_unused.raw_induct
      [where Pa = "\<lambda>a r. (case a of ((((P, q), x), y), c) \<Rightarrow> mark_post q x c) r"
         and xa = "((((P, q), x), y), c)" and ya = r])
    subgoal premises prems for f P q x y c r
    proof (cases "parentState q y \<noteq> x \<and> parentState q x \<noteq> x")
      case True
      with prems(2)
      have "f P (setParentState x unused q) (previousState P x) y (c + 1) = Some r" by simp
      from prems(1) [OF this] show ?thesis
        by (auto simp: mark_post_def split: sum.splits)
    next
      case False
      with prems(2) show ?thesis by (auto simp: mark_post_def split: if_splits)
    qed
    using assms apply simp
    done
  then show ?thesis by simp
qed

lemma compact_stage1_counter:
  assumes "compact_stage1 P q x y c = Some r"
  shows "stage1_post q c r"
proof -
  have "(case ((((P, q), x), y), c) of ((((P, q), x), y), c) \<Rightarrow> stage1_post q c) r"
    apply (rule compact_stage1.raw_induct
      [where Pa = "\<lambda>a r. (case a of ((((P, q), x), y), c) \<Rightarrow> stage1_post q c) r"
         and xa = "((((P, q), x), y), c)" and ya = r])
    subgoal premises prems for f P q x y c r
    proof -
      from prems(2) obtain m where m: "compact_mark_unused P q x y c = Some m"
        by (auto split: option.splits)
      note mc = compact_mark_unused_counter [OF m]
      show ?thesis
      proof (cases m)
        case (Inl e)
        with prems(2) m show ?thesis by (auto simp: stage1_post_def)
      next
        case (Inr t)
        obtain q1 x1 c1 where t: "t = (q1, x1, c1)" by (cases t)
        from mc Inr t have mc': "c \<le> c1" "c1 = c \<longrightarrow> q1 = q"
          by (auto simp: mark_post_def)
        show ?thesis
        proof (cases "parentState q1 x1 \<noteq> x1
            \<and> parentState q1 (previousState P x1) \<noteq> previousState P x1")
          case True
          with prems(2) m Inr t obtain y1 where
            "f P q1 (previousState P x1) y1 c1 = Some r"
            by (auto split: option.splits)
          from prems(1) [OF this] mc' show ?thesis
            by (auto simp: stage1_post_def split: sum.splits)
        next
          case False
          with prems(2) m Inr t mc' show ?thesis
            by (auto simp: stage1_post_def split: option.splits if_splits)
        qed
      qed
    qed
    using assms apply simp
    done
  then show ?thesis by simp
qed

text \<open>
  So a run of \<open>compact()\<close> whose stage 1 marks nothing returns the queue as \<open>deepen()\<close>
  left it, with the states that \<open>deepen()\<close> has pruned still between
  \<open>firstUnprocessedState\<close> and \<open>firstFreeState\<close>, and with an empty hash table.
\<close>

lemma compact_stages_nothing_marked:
  assumes "compact_skip_unused P q (previousState P (firstFreeState q)) = Some y"
    and "compact_stage1 P q (previousState P (firstUnprocessedState q)) y 0 = Some (Inr (q1, 0))"
  shows "compact_stages P sl q = Some (Inr (q, clearHash))"
  using assms compact_stage1_counter [OF assms(2)]
  by (simp add: compact_stages_def stage1_post_def)

end
